theory Spec2Isabelle
  imports
    Complex_Main
    "HOL-Library.Multiset"
    "HOL-Library.Char_ord"
    "HOL-Library.List_Lexorder"
begin

section \<open>JavaScript values used by the survivor-pool UI\<close>

text \<open>
  The pick tables of the UI hold team names, \<open>null\<close> (a cleared pick) and \<open>undefined\<close>
  (a hole, or a read past the end of an array). Strict equality \<open>===\<close> on these three
  kinds of value is equality of the datatype.
\<close>

datatype jsval = Str string | Null | Undefined

text \<open>A JavaScript number that is either \<open>NaN\<close> or a finite value.\<close>

datatype 'a jsnum = NaN | Num 'a

datatype error = TypeError | UnknownTeam

text \<open>Truthiness: a non-empty string is truthy; \<open>""\<close>, \<open>null\<close> and \<open>undefined\<close> are falsy.\<close>

fun truthy :: "jsval \<Rightarrow> bool" where
  "truthy (Str s) = (s \<noteq> [])"
| "truthy Null = False"
| "truthy Undefined = False"

text \<open>\<open>xs[i]\<close>: a read out of range yields \<open>undefined\<close>.\<close>

definition js_get :: "jsval list \<Rightarrow> nat \<Rightarrow> jsval" where
  "js_get xs i = (if i < length xs then xs ! i else Undefined)"

text \<open>\<open>xs[i] = v\<close>: a write past the end extends the array, leaving holes.\<close>

definition js_set :: "jsval list \<Rightarrow> nat \<Rightarrow> jsval \<Rightarrow> jsval list" where
  "js_set xs i v =
     (if i < length xs then xs[i := v]
      else xs @ replicate (i - length xs) Undefined @ [v])"

text \<open>\<open>a < b\<close> on numbers: every comparison with \<open>NaN\<close> is false.\<close>

fun js_lt :: "int jsnum \<Rightarrow> int jsnum \<Rightarrow> bool" where
  "js_lt (Num a) (Num b) = (a < b)"
| "js_lt _ _ = False"

text \<open>
  A \<open>Set\<close> of strings, kept as the list of its members in insertion order
  (the order \<open>Array.from\<close> and \<open>forEach\<close> observe); \<open>add\<close> ignores a member already present.
\<close>

definition set_add :: "'a \<Rightarrow> 'a list \<Rightarrow> 'a list" where
  "set_add x xs = (if x \<in> set xs then xs else xs @ [x])"


section \<open>Schedule helpers\<close>

record game =
  week :: int
  home :: string
  away :: string

text \<open>The body of the \<open>forEach\<close> callback shared by the two schedule helpers.\<close>

definition add_game_teams :: "int \<Rightarrow> string list \<Rightarrow> game \<Rightarrow> string list" where
  "add_game_teams wk teams g =
     (if week g = wk then set_add (away g) (set_add (home g) teams) else teams)"

text \<open>
  \<open>getTeamsForWeek(schedule, weekIdx)\<close>. The final \<open>sort()\<close> has no comparator and the
  members are strings, so it orders them by code units, ascending; on a duplicate-free
  list every sorting algorithm returns the same list.
\<close>

definition getTeamsForWeek :: "game list \<Rightarrow> nat \<Rightarrow> string list" where
  "getTeamsForWeek schedule weekIdx =
     (let wk = int weekIdx + 1;
          teams = foldl (add_game_teams wk) [] schedule
      in sort teams)"


section \<open>Checkbox selection\<close>

text \<open>The state updater inside \<open>handleCheckboxChange(team)\<close>; \<open>entries\<close> is the UI's number state.\<close>

definition handleCheckboxChange :: "int jsnum \<Rightarrow> string \<Rightarrow> string list \<Rightarrow> string list" where
  "handleCheckboxChange entries tm prev =
     (if tm \<in> set prev then filter (\<lambda>t. t \<noteq> tm) prev
      else if js_lt (Num (int (length prev))) entries then prev @ [tm]
      else prev)"

text \<open>A sequence of checkbox toggles, applied left to right.\<close>

definition toggles :: "int jsnum \<Rightarrow> string list \<Rightarrow> string list \<Rightarrow> string list" where
  "toggles entries ts sel = foldl (\<lambda>s t. handleCheckboxChange entries t s) sel ts"


section \<open>Transposing the pick table\<close>

text \<open>\<open>v || ""\<close>.\<close>

definition or_empty :: "jsval \<Rightarrow> jsval" where
  "or_empty v = (if truthy v then v else Str [])"

text \<open>The inner loop of \<open>transposePicks\<close>: \<open>for (week = ...; week < numWeeks; week++) row.push(...)\<close>.\<close>

function week_loop :: "jsval list list \<Rightarrow> nat \<Rightarrow> nat \<Rightarrow> nat \<Rightarrow> jsval list \<Rightarrow> jsval list" where
  "week_loop arr entry numWeeks wk row =
     (if wk < numWeeks
      then week_loop arr entry numWeeks (Suc wk) (row @ [or_empty (js_get (arr ! wk) entry)])
      else row)"
  by pat_completeness auto
termination
  by (relation "measure (\<lambda>(arr, entry, numWeeks, wk, row). numWeeks - wk)") auto

text \<open>The outer loop: \<open>for (entry = ...; entry < numEntries; entry++) result.push(row)\<close>.\<close>

function entry_loop :: "jsval list list \<Rightarrow> nat \<Rightarrow> nat \<Rightarrow> nat \<Rightarrow> jsval list list \<Rightarrow> jsval list list" where
  "entry_loop arr numEntries numWeeks entry result =
     (if entry < numEntries
      then entry_loop arr numEntries numWeeks (Suc entry)
             (result @ [week_loop arr entry numWeeks 0 []])
      else result)"
  by pat_completeness auto
termination
  by (relation "measure (\<lambda>(arr, numEntries, numWeeks, entry, result). numEntries - entry)") auto

text \<open>
  \<open>transposePicks(weekEntryArray)\<close>. The argument is \<open>None\<close> for \<open>null\<close>/\<open>undefined\<close>.
  Every row is an array, as in the table the component keeps, so
  \<open>weekEntryArray[0]?.length || 0\<close> is the length of the first row.
\<close>

definition transposePicks :: "jsval list list option \<Rightarrow> jsval list list" where
  "transposePicks weekEntryArray =
     (case weekEntryArray of
        None \<Rightarrow> []
      | Some arr \<Rightarrow>
          if length arr = 0 then []
          else
            let numWeeks = length arr;
                numEntries = length (arr ! 0)
            in entry_loop arr numEntries numWeeks 0 [])"


section \<open>Editing the pick table\<close>

text \<open>
  The loop of \<open>handlePickChange\<close> over the later weeks:
  \<open>for (w = ...; w < updated.length; w++) if (updated[w][entryIdx] === team) updated[w][entryIdx] = null\<close>.
\<close>

function clear_later :: "nat \<Rightarrow> nat \<Rightarrow> jsval \<Rightarrow> jsval list list \<Rightarrow> jsval list list" where
  "clear_later w entryIdx tm updated =
     (if w < length updated
      then clear_later (Suc w) entryIdx tm
             (if js_get (updated ! w) entryIdx = tm
              then updated[w := js_set (updated ! w) entryIdx Null]
              else updated)
      else updated)"
  by pat_completeness auto
termination
  by (relation "measure (\<lambda>(w, entryIdx, tm, updated). length updated - w)") auto

text \<open>The effect of one round of that loop on the row of its week.\<close>

definition clear_row :: "nat \<Rightarrow> jsval \<Rightarrow> jsval list \<Rightarrow> jsval list" where
  "clear_row e tm row = (if js_get row e = tm then js_set row e Null else row)"

text \<open>
  The state updater inside \<open>handlePickChange(weekIdx, entryIdx, team)\<close>, on the table
  \<open>prev\<close> indexed \<open>[week][entry]\<close>. The copy \<open>prev.map(arr => [...arr])\<close> is the identity on
  values. \<open>updated[weekIdx]\<close> is \<open>undefined\<close> when the week index is past the end, and the
  assignment into it throws a \<open>TypeError\<close>.
\<close>

definition handlePickChange :: "nat \<Rightarrow> nat \<Rightarrow> jsval \<Rightarrow> jsval list list \<Rightarrow> error + jsval list list" where
  "handlePickChange weekIdx entryIdx tm prev =
     (if weekIdx < length prev
      then Inr (clear_later (weekIdx + 1) entryIdx tm
                  (prev[weekIdx := js_set (prev ! weekIdx) entryIdx tm]))
      else Inl TypeError)"

text \<open>
  The loop of \<open>getAvailableTeamsForEntryWeek\<close> over the prior weeks:
  \<open>for (w = ...; w < weekIdx; w++) if (picks[w] && picks[w][entryIdx]) alreadyPicked.add(...)\<close>.
  \<open>picks[w]\<close> is \<open>undefined\<close>, hence falsy, past the end of the table.
\<close>

function prior_loop :: "jsval list list \<Rightarrow> nat \<Rightarrow> nat \<Rightarrow> nat \<Rightarrow> jsval list \<Rightarrow> jsval list" where
  "prior_loop picks weekIdx entryIdx w alreadyPicked =
     (if w < weekIdx
      then prior_loop picks weekIdx entryIdx (Suc w)
             (if w < length picks \<and> truthy (js_get (picks ! w) entryIdx)
              then set_add (js_get (picks ! w) entryIdx) alreadyPicked
              else alreadyPicked)
      else alreadyPicked)"
  by pat_completeness auto
termination
  by (relation "measure (\<lambda>(picks, weekIdx, entryIdx, w, alreadyPicked). weekIdx - w)") auto

text \<open>\<open>getAvailableTeamsForEntryWeek(schedule, picks, weekIdx, entryIdx)\<close>.\<close>

definition getAvailableTeamsForEntryWeek ::
    "game list \<Rightarrow> jsval list list \<Rightarrow> nat \<Rightarrow> nat \<Rightarrow> string list" where
  "getAvailableTeamsForEntryWeek schedule picks weekIdx entryIdx =
     (let weekNum = int weekIdx + 1;
          teamsThisWeek = foldl (add_game_teams weekNum) [] schedule;
          alreadyPicked = prior_loop picks weekIdx entryIdx 0 []
      in filter (\<lambda>tm. Str tm \<notin> set alreadyPicked) teamsThisWeek)"

text \<open>The picks of one entry, week by week: the column \<open>picks[0][e], picks[1][e], ...\<close>.\<close>

definition entry_picks :: "jsval list list \<Rightarrow> nat \<Rightarrow> jsval list" where
  "entry_picks picks e = map (\<lambda>row. js_get row e) picks"

text \<open>No reuse: the teams (truthy values) an entry holds across the weeks are pairwise distinct.\<close>

definition no_reuse :: "jsval list list \<Rightarrow> nat \<Rightarrow> bool" where
  "no_reuse picks e = distinct (filter truthy (entry_picks picks e))"

text \<open>
  A sequence of edits \<open>(weekIdx, entryIdx, team)\<close> made through a dropdown that lists
  \<open>getAvailableTeamsForEntryWeek\<close>: each edit assigns a team offered for that entry and week
  in the table as it stands. The result is \<open>None\<close> when an edit assigns a team that is not
  offered, or when \<open>handlePickChange\<close> throws.
\<close>

fun offered_edits :: "game list \<Rightarrow> (nat \<times> nat \<times> string) list \<Rightarrow> jsval list list \<Rightarrow> jsval list list option" where
  "offered_edits schedule [] picks = Some picks"
| "offered_edits schedule ((w, e, tm) # es) picks =
     (if tm \<in> set (getAvailableTeamsForEntryWeek schedule picks w e)
      then (case handlePickChange w e (Str tm) picks of
              Inl err \<Rightarrow> None
            | Inr picks' \<Rightarrow> offered_edits schedule es picks')
      else None)"


section \<open>Sorting the week summary\<close>

record team_summary =
  team :: string
  win_prob :: real
  popularity :: real
  expected_value :: real
  future_value :: "real option"

text \<open>
  The comparator \<open>(a, b) => b.expected_value - a.expected_value\<close>. On finite doubles the
  sign of the difference is the sign of the exact difference, so the values are reals here.
\<close>

definition by_expected_value :: "team_summary \<Rightarrow> team_summary \<Rightarrow> real" where
  "by_expected_value a b = expected_value b - expected_value a"

text \<open>
  \<open>Array.prototype.sort(cmp)\<close> is a stable sort: with a consistent comparator its result
  is the one stable ordering of the input, computed here by insertion from the right.
\<close>

fun place :: "('a \<Rightarrow> 'a \<Rightarrow> real) \<Rightarrow> 'a \<Rightarrow> 'a list \<Rightarrow> 'a list" where
  "place cmp x [] = [x]"
| "place cmp x (y # ys) = (if cmp x y \<le> 0 then x # y # ys else y # place cmp x ys)"

fun js_sort :: "('a \<Rightarrow> 'a \<Rightarrow> real) \<Rightarrow> 'a list \<Rightarrow> 'a list" where
  "js_sort cmp [] = []"
| "js_sort cmp (x # xs) = place cmp x (js_sort cmp xs)"

text \<open>
  \<open>fetchSummary\<close>, from the received \<open>data.summary\<close> to the pair of states it sets:
  \<open>summaryData\<close> and \<open>topPicks\<close>.
\<close>

definition fetchSummary :: "team_summary list \<Rightarrow> team_summary list \<times> team_summary list" where
  "fetchSummary summary =
     (let sorted = js_sort by_expected_value summary
      in (sorted, take 2 sorted))"


text \<open>Two summaries with the same expected value, for the examples below.\<close>

definition bills_summary :: team_summary where
  "bills_summary =
     \<lparr>team = ''Bills'', win_prob = 70 / 100, popularity = 30 / 100,
      expected_value = 44 / 100, future_value = Some 3\<rparr>"

definition chiefs_summary :: team_summary where
  "chiefs_summary =
     \<lparr>team = ''Chiefs'', win_prob = 76 / 100, popularity = 40 / 100,
      expected_value = 44 / 100, future_value = Some 3\<rparr>"


section \<open>Parsing numbers\<close>

text \<open>White space skipped by \<open>parseInt\<close> (the ASCII part of it).\<close>

definition is_js_space :: "char \<Rightarrow> bool" where
  "is_js_space c = (c \<in> set [CHR '' '', CHR 0x09, CHR 0x0A, CHR 0x0B, CHR 0x0C, CHR 0x0D])"

definition digit_value :: "char \<Rightarrow> nat option" where
  "digit_value c =
     (let n = (of_char c :: nat) in
      if 48 \<le> n \<and> n \<le> 57 then Some (n - 48)
      else if 97 \<le> n \<and> n \<le> 122 then Some (n - 87)
      else if 65 \<le> n \<and> n \<le> 90 then Some (n - 55)
      else None)"

definition is_digit_in :: "nat \<Rightarrow> char \<Rightarrow> bool" where
  "is_digit_in radix c = (case digit_value c of None \<Rightarrow> False | Some d \<Rightarrow> d < radix)"

definition digits_value :: "nat \<Rightarrow> string \<Rightarrow> nat" where
  "digits_value radix ds =
     foldl (\<lambda>acc c. case digit_value c of None \<Rightarrow> acc | Some d \<Rightarrow> acc * radix + d) 0 ds"

text \<open>
  \<open>parseInt(str, radix)\<close>, with \<open>None\<close> for an absent radix: leading white space, an
  optional sign, an optional \<open>0x\<close> prefix (when the radix is absent, 0 or 16), then the
  longest run of digits of the radix; \<open>NaN\<close> when that run is empty. The result here is
  the exact integer. The code's result is a double: it is that integer for every value
  of magnitude at most \<open>2^53\<close>, and beyond that a rounded value or an infinity, which
  still compares with 1 and 18 as the integer does. Statements about the value itself carry the bound
  \<open>2^53\<close>. The strings are ASCII texts, so only the ASCII white space is listed.
\<close>

definition parseInt :: "string \<Rightarrow> nat option \<Rightarrow> int jsnum" where
  "parseInt str radix =
     (let s = dropWhile is_js_space str;
          neg = (take 1 s = ''-'');
          s = (if take 1 s = ''+'' \<or> take 1 s = ''-'' then drop 1 s else s);
          r0 = (case radix of None \<Rightarrow> 0 | Some r \<Rightarrow> r);
          hex = ((r0 = 0 \<or> r0 = 16) \<and> (take 2 s = ''0x'' \<or> take 2 s = ''0X''));
          r = (if hex then 16 else if r0 = 0 then 10 else r0);
          s = (if hex then drop 2 s else s);
          z = takeWhile (is_digit_in r) s
      in if r < 2 \<or> 36 < r then NaN
         else if z = [] then NaN
         else Num ((if neg then - 1 else 1) * int (digits_value r z)))"


section \<open>Colour interpolation\<close>

text \<open>\<open>s.substring(i, j)\<close> for \<open>0 \<le> i \<le> j\<close>, as at every call below.\<close>

definition substring :: "string \<Rightarrow> nat \<Rightarrow> nat \<Rightarrow> string" where
  "substring s i j = take (j - i) (drop i s)"

text \<open>\<open>ToInt32\<close> and \<open>x << k\<close>; \<open>NaN\<close> converts to 0.\<close>

definition to_int32 :: "int \<Rightarrow> int" where
  "to_int32 x = (let m = x mod 2 ^ 32 in if 2 ^ 31 \<le> m then m - 2 ^ 32 else m)"

fun js_shl :: "int jsnum \<Rightarrow> nat \<Rightarrow> int" where
  "js_shl NaN k = 0"
| "js_shl (Num x) k = to_int32 (to_int32 x * 2 ^ (k mod 32))"

text \<open>\<open>ar + (br - ar) * t\<close> and \<open>Math.round\<close>, on reals in place of doubles.\<close>

fun lerp :: "int jsnum \<Rightarrow> int jsnum \<Rightarrow> real \<Rightarrow> real jsnum" where
  "lerp (Num x) (Num y) t = Num (real_of_int x + (real_of_int y - real_of_int x) * t)"
| "lerp _ _ t = NaN"

fun math_round :: "real jsnum \<Rightarrow> int jsnum" where
  "math_round NaN = NaN"
| "math_round (Num x) = Num \<lfloor>x + 1 / 2\<rfloor>"

fun js_add :: "int \<Rightarrow> int jsnum \<Rightarrow> int jsnum" where
  "js_add x NaN = NaN"
| "js_add x (Num y) = Num (x + y)"

text \<open>The digit characters \<open>0-9a-z\<close> of \<open>toString(radix)\<close>.\<close>

definition digit_char :: "nat \<Rightarrow> char" where
  "digit_char d = (if d < 10 then char_of (48 + d) else char_of (87 + d))"

text \<open>The digits of a natural number in a radix of at least 2, most significant first.\<close>

function digits_in :: "nat \<Rightarrow> nat \<Rightarrow> string" where
  "digits_in r n =
     (if n < r \<or> r < 2 then [digit_char n]
      else digits_in r (n div r) @ [digit_char (n mod r)])"
  by pat_completeness auto
termination
  by (relation "measure (\<lambda>(r, n). n)") auto

text \<open>\<open>n.toString(16)\<close> on an integer or \<open>NaN\<close>.\<close>

fun to_string16 :: "int jsnum \<Rightarrow> string" where
  "to_string16 NaN = ''NaN''"
| "to_string16 (Num n) =
     (if n < 0 then CHR ''-'' # digits_in 16 (nat (- n)) else digits_in 16 (nat n))"

text \<open>
  \<open>interpolateColor(a, b, t)\<close>. \<open>a.replace('#', '')\<close> removes the first \<open>#\<close>; the template
  literal puts \<open>#\<close> before the hexadecimal text with its first character sliced off.
\<close>

definition interpolateColor :: "string \<Rightarrow> string \<Rightarrow> real \<Rightarrow> string" where
  "interpolateColor a b t =
     (let ah = remove1 (CHR ''#'') a;
          bh = remove1 (CHR ''#'') b;
          ar = parseInt (substring ah 0 2) (Some 16);
          ag = parseInt (substring ah 2 4) (Some 16);
          ab = parseInt (substring ah 4 6) (Some 16);
          br = parseInt (substring bh 0 2) (Some 16);
          bg = parseInt (substring bh 2 4) (Some 16);
          bb = parseInt (substring bh 4 6) (Some 16);
          rr = math_round (lerp ar br t);
          rg = math_round (lerp ag bg t);
          rb = math_round (lerp ab bb t)
      in CHR ''#'' #
         drop 1 (to_string16 (js_add (js_shl (Num 1) 24 + js_shl rr 16 + js_shl rg 8) rb)))"

text \<open>A colour string as the UI writes them: \<open>#\<close> and six lowercase hexadecimal digits.\<close>

definition is_color :: "string \<Rightarrow> bool" where
  "is_color a = (length a = 7 \<and> take 1 a = ''#'' \<and> set (drop 1 a) \<subseteq> set ''0123456789abcdef'')"


section \<open>The week and entries inputs\<close>

text \<open>
  The week input's \<open>onChange\<close> in the component of \<open>src/unnamed/part_000\<close>: the new value
  of the \<open>week\<close> state for the text \<open>e.target.value\<close>. \<open>val > 18\<close> and \<open>val < 1\<close> are both false
  on \<open>NaN\<close>.
\<close>

definition week_onChange :: "string \<Rightarrow> int jsnum" where
  "week_onChange v =
     (let val = parseInt v None;
          val = (if js_lt (Num 18) val then Num 18 else val);
          val = (if js_lt val (Num 1) then Num 1 else val)
      in val)"

text \<open>
  The week input's \<open>onChange\<close> in the older copy \<open>src/frontend/src/SurvivorUI.jsx\<close>:
  \<open>setWeek(parseInt(e.target.value))\<close>, with no clamp.
\<close>

definition week_onChange_frontend :: "string \<Rightarrow> int jsnum" where
  "week_onChange_frontend v = parseInt v None"

text \<open>
  The entries input's \<open>onChange\<close>, the same in both copies:
  \<open>setEntries(parseInt(e.target.value))\<close>.
\<close>

definition entries_onChange :: "string \<Rightarrow> int jsnum" where
  "entries_onChange v = parseInt v None"

text \<open>The decimal text of an integer, as it is typed into a number input.\<close>

definition decimal :: "int \<Rightarrow> string" where
  "decimal n = (if n < 0 then CHR ''-'' # digits_in 10 (nat (- n)) else digits_in 10 (nat n))"


section \<open>The rating store\<close>

record game_result =
  result_week :: int
  winner :: string
  loser :: string

text \<open>
  Modelled from the spec: the rating store of section 4.1, whose code (the Python tool) is
  not among the sources. It holds the per-team ratings, the highest week already
  applied, and the constants \<open>K\<close> and \<open>S\<close> of the Elo update.
\<close>

record rating_store =
  ratings :: "string \<rightharpoonup> real"
  applied_week :: int
  k_factor :: real
  scale :: real

text \<open>Modelled from the spec: \<open>get_rating(team)\<close> fails with \<open>UnknownTeam\<close> if the team is absent.\<close>

definition get_rating :: "rating_store \<Rightarrow> string \<Rightarrow> error + real" where
  "get_rating store tm = (case ratings store tm of None \<Rightarrow> Inl UnknownTeam | Some r \<Rightarrow> Inr r)"

text \<open>
  Modelled from the spec: the logistic transform of section 4.3,
  \<open>1 / (1 + 10^(-(r - r') / S))\<close>.
\<close>

definition expected_outcome :: "real \<Rightarrow> real \<Rightarrow> real \<Rightarrow> real" where
  "expected_outcome S r r' = 1 / (1 + 10 powr (- (r - r') / S))"

text \<open>Modelled from the spec: a rating moves by \<open>K * (actual_outcome - expected_outcome)\<close>.\<close>

definition elo_delta :: "real \<Rightarrow> real \<Rightarrow> real \<Rightarrow> real \<Rightarrow> real \<Rightarrow> real" where
  "elo_delta K S actual r r' = K * (actual - expected_outcome S r r')"

text \<open>
  Modelled from the spec: one adjustment for one completed game; the winner's actual
  outcome is 1 and the loser's is 0, each against the ratings before the game.
\<close>

definition apply_result :: "rating_store \<Rightarrow> game_result \<Rightarrow> error + rating_store" where
  "apply_result store g =
     (case get_rating store (winner g) of
        Inl e \<Rightarrow> Inl e
      | Inr rw \<Rightarrow>
          (case get_rating store (loser g) of
             Inl e \<Rightarrow> Inl e
           | Inr rl \<Rightarrow>
               Inr (store\<lparr>ratings := (ratings store)
                      (winner g \<mapsto> rw + elo_delta (k_factor store) (scale store) 1 rw rl,
                       loser g \<mapsto> rl + elo_delta (k_factor store) (scale store) 0 rl rw)\<rparr>)))"

text \<open>Modelled from the spec: one adjustment per game, in the order of the results.\<close>

fun apply_results :: "rating_store \<Rightarrow> game_result list \<Rightarrow> error + rating_store" where
  "apply_results store [] = Inr store"
| "apply_results store (g # gs) =
     (case apply_result store g of
        Inl e \<Rightarrow> Inl e
      | Inr store' \<Rightarrow> apply_results store' gs)"

text \<open>
  Modelled from the spec: \<open>update_through(week, results)\<close> applies the games of
  \<open>results\<close> whose week is at most the given week and that were not applied before (their
  week is above the highest week already applied), then records the given week as applied.
\<close>

definition update_through :: "int \<Rightarrow> game_result list \<Rightarrow> rating_store \<Rightarrow> error + rating_store" where
  "update_through wk results store =
     (case apply_results store
             (filter (\<lambda>g. applied_week store < result_week g \<and> result_week g \<le> wk) results) of
        Inl e \<Rightarrow> Inl e
      | Inr store' \<Rightarrow> Inr (store'\<lparr>applied_week := max (applied_week store') wk\<rparr>))"

text \<open>The sum of the rating changes from one store to another, over the teams of the first.\<close>

definition delta_sum :: "rating_store \<Rightarrow> rating_store \<Rightarrow> real" where
  "delta_sum store store' =
     (\<Sum>tm \<in> dom (ratings store). the (ratings store' tm) - the (ratings store tm))"

text \<open>A store of two level teams, one result of week 1, and the store after that week.\<close>

definition level_store :: rating_store where
  "level_store =
     \<lparr>ratings = [''Bills'' \<mapsto> 1500, ''Jets'' \<mapsto> 1500],
      applied_week = 0, k_factor = 20, scale = 400\<rparr>"

definition week1_results :: "game_result list" where
  "week1_results = [\<lparr>result_week = 1, winner = ''Bills'', loser = ''Jets''\<rparr>]"

definition week1_store :: rating_store where
  "week1_store =
     \<lparr>ratings = [''Bills'' \<mapsto> 1510, ''Jets'' \<mapsto> 1490],
      applied_week = 1, k_factor = 20, scale = 400\<rparr>"


text \<open>The loops are unfolded one step at a time, by their induction rules.\<close>

declare week_loop.simps [simp del]
declare entry_loop.simps [simp del]
declare clear_later.simps [simp del]
declare prior_loop.simps [simp del]
declare digits_in.simps [simp del]


section \<open>Properties of the schedule helpers\<close>

lemma set_set_add: "set (set_add x xs) = insert x (set xs)"
  by (auto simp: set_add_def)

lemma distinct_set_add: "distinct xs \<Longrightarrow> distinct (set_add x xs)"
  by (simp add: set_add_def)

lemma distinct_add_game_teams: "distinct ts \<Longrightarrow> distinct (add_game_teams wk ts g)"
  by (simp add: add_game_teams_def distinct_set_add)

lemma set_add_game_teams:
  "set (add_game_teams wk ts g) = set ts \<union> (if week g = wk then {home g, away g} else {})"
  by (auto simp: add_game_teams_def set_set_add)

lemma distinct_foldl_add_game_teams:
  "distinct ts \<Longrightarrow> distinct (foldl (add_game_teams wk) ts schedule)"
  by (induction schedule arbitrary: ts) (simp_all add: distinct_add_game_teams)

lemma set_foldl_add_game_teams:
  "set (foldl (add_game_teams wk) ts schedule) =
     set ts \<union> home ` set (filter (\<lambda>g. week g = wk) schedule)
            \<union> away ` set (filter (\<lambda>g. week g = wk) schedule)"
  by (induction schedule arbitrary: ts) (auto simp: set_add_game_teams)

text \<open>
  C9. For every schedule and every 0-based week index, \<open>getTeamsForWeek\<close> returns a
  duplicate-free list, sorted in ascending string order, whose members are exactly the
  home and away teams of the games whose week field equals the index plus one.
\<close>

theorem getTeamsForWeek_sorted_distinct_exact:
  "distinct (getTeamsForWeek schedule weekIdx)
   \<and> sorted (getTeamsForWeek schedule weekIdx)
   \<and> set (getTeamsForWeek schedule weekIdx) =
       home ` set (filter (\<lambda>g. week g = int weekIdx + 1) schedule)
       \<union> away ` set (filter (\<lambda>g. week g = int weekIdx + 1) schedule)"
  by (simp add: getTeamsForWeek_def Let_def distinct_foldl_add_game_teams
      set_foldl_add_game_teams)


section \<open>Properties of the checkbox selection\<close>

lemma handleCheckboxChange_distinct:
  "distinct prev \<Longrightarrow> distinct (handleCheckboxChange entries tm prev)"
  by (simp add: handleCheckboxChange_def)

lemma handleCheckboxChange_length:
  assumes "int (length prev) \<le> n"
  shows "int (length (handleCheckboxChange (Num n) tm prev)) \<le> n"
proof -
  have "length (filter (\<lambda>t. t \<noteq> tm) prev) \<le> length prev"
    by (rule length_filter_le)
  with assms have "int (length (filter (\<lambda>t. t \<noteq> tm) prev)) \<le> n"
    by linarith
  with assms show ?thesis
    by (simp add: handleCheckboxChange_def)
qed

lemma toggles_invariant:
  "distinct sel \<Longrightarrow> int (length sel) \<le> n \<Longrightarrow>
   distinct (toggles (Num n) ts sel) \<and> int (length (toggles (Num n) ts sel)) \<le> n"
  unfolding toggles_def
proof (induction ts arbitrary: sel)
  case Nil
  then show ?case by simp
next
  case (Cons t ts)
  have "distinct (handleCheckboxChange (Num n) t sel)"
    using Cons.prems(1) by (rule handleCheckboxChange_distinct)
  moreover have "int (length (handleCheckboxChange (Num n) t sel)) \<le> n"
    using Cons.prems(2) by (rule handleCheckboxChange_length)
  ultimately show ?case
    using Cons.IH by simp
qed

text \<open>
  C7. Within a single week no team is selected twice: starting from the empty selection
  (the initial state, and the state after saving), after any sequence of checkbox
  toggles the selected-team list has no duplicate and its length does not exceed the
  number of entries. The number of entries is a count \<open>n \<ge> 0\<close>.
\<close>

theorem handleCheckboxChange_no_duplicate_bounded:
  assumes "0 \<le> n"
  shows "distinct (toggles (Num n) ts [])
         \<and> int (length (toggles (Num n) ts [])) \<le> n"
  using assms toggles_invariant [of "[]" n ts] by simp

theorem handleCheckboxChange_no_duplicate_bounded_witness:
  "(0::int) \<le> 2
   \<and> toggles (Num 2) [''Bills'', ''Chiefs'', ''Bills'', ''Eagles'', ''Jets'', ''Chiefs''] []
       = [''Eagles'']
   \<and> distinct (toggles (Num 2) [''Bills'', ''Chiefs'', ''Bills'', ''Eagles'', ''Jets'', ''Chiefs''] [])
   \<and> int (length (toggles (Num 2) [''Bills'', ''Chiefs'', ''Bills'', ''Eagles'', ''Jets'', ''Chiefs''] [])) \<le> 2"
  using handleCheckboxChange_no_duplicate_bounded
    [of 2 "[''Bills'', ''Chiefs'', ''Bills'', ''Eagles'', ''Jets'', ''Chiefs'']"]
  by (simp add: toggles_def handleCheckboxChange_def)

section \<open>Properties of the transposition\<close>

lemma week_loop_map:
  "week_loop arr entry numWeeks wk row =
     row @ map (\<lambda>w. or_empty (js_get (arr ! w) entry)) [wk..<numWeeks]"
proof (induction arr entry numWeeks wk row rule: week_loop.induct)
  case (1 arr entry numWeeks wk row)
  show ?case
  proof (cases "wk < numWeeks")
    case True
    then show ?thesis
      using "1.IH" by (subst week_loop.simps) (simp add: upt_conv_Cons)
  next
    case False
    then show ?thesis
      by (subst week_loop.simps) simp
  qed
qed

lemma entry_loop_map:
  "entry_loop arr numEntries numWeeks entry result =
     result @ map (\<lambda>e. week_loop arr e numWeeks 0 []) [entry..<numEntries]"
proof (induction arr numEntries numWeeks entry result rule: entry_loop.induct)
  case (1 arr numEntries numWeeks entry result)
  show ?case
  proof (cases "entry < numEntries")
    case True
    then show ?thesis
      using "1.IH" by (subst entry_loop.simps) (simp add: upt_conv_Cons)
  next
    case False
    then show ?thesis
      by (subst entry_loop.simps) simp
  qed
qed

lemma transposePicks_map:
  "arr \<noteq> [] \<Longrightarrow> transposePicks (Some arr) =
     map (\<lambda>e. map (\<lambda>w. or_empty (js_get (arr ! w) e)) [0..<length arr]) [0..<length (arr ! 0)]"
  by (simp add: transposePicks_def Let_def entry_loop_map week_loop_map)

text \<open>
  C8. For every non-empty rectangular week-by-entry array, \<open>transposePicks\<close> returns an
  entry-by-week array: one row per entry of the first week-row, each as long as the
  number of weeks, with \<open>result[e][w]\<close> equal to \<open>input[w][e]\<close> when that value is truthy
  and to the empty string otherwise.
\<close>

theorem transposePicks_rectangular:
  assumes "arr \<noteq> []" and "\<forall>row \<in> set arr. length row = length (arr ! 0)"
  shows "length (transposePicks (Some arr)) = length (arr ! 0)
    \<and> (\<forall>e < length (arr ! 0).
          length (transposePicks (Some arr) ! e) = length arr
          \<and> (\<forall>w < length arr.
                transposePicks (Some arr) ! e ! w =
                  (if truthy (arr ! w ! e) then arr ! w ! e else Str [])))"
proof -
  have rect: "e < length (arr ! w)" if "w < length arr" and "e < length (arr ! 0)" for e w
  proof -
    from that(1) have "arr ! w \<in> set arr" by simp
    with assms(2) have "length (arr ! w) = length (arr ! 0)" by blast
    with that(2) show ?thesis by simp
  qed
  have cell: "transposePicks (Some arr) ! e ! w =
      (if truthy (arr ! w ! e) then arr ! w ! e else Str [])"
    if "w < length arr" and "e < length (arr ! 0)" for e w
    using that rect [OF that] assms(1)
    by (simp add: transposePicks_map or_empty_def js_get_def)
  from assms(1) have "length (transposePicks (Some arr)) = length (arr ! 0)"
    by (simp add: transposePicks_map)
  moreover have "length (transposePicks (Some arr) ! e) = length arr"
    if "e < length (arr ! 0)" for e
    using that assms(1) by (simp add: transposePicks_map)
  ultimately show ?thesis
    using cell by blast
qed

theorem transposePicks_rectangular_witness:
  "[[Str ''Bills'', Null], [Undefined, Str ''Jets''], [Str [], Str ''Rams'']] \<noteq> []
   \<and> list_all (\<lambda>row. length row = 2)
        [[Str ''Bills'', Null], [Undefined, Str ''Jets''], [Str [], Str ''Rams'']]
   \<and> length (transposePicks
        (Some [[Str ''Bills'', Null], [Undefined, Str ''Jets''], [Str [], Str ''Rams'']])) = 2
   \<and> length (transposePicks
        (Some [[Str ''Bills'', Null], [Undefined, Str ''Jets''], [Str [], Str ''Rams'']]) ! 1) = 3
   \<and> transposePicks
        (Some [[Str ''Bills'', Null], [Undefined, Str ''Jets''], [Str [], Str ''Rams'']]) ! 1 ! 2
       = Str ''Rams''
   \<and> transposePicks
        (Some [[Str ''Bills'', Null], [Undefined, Str ''Jets''], [Str [], Str ''Rams'']]) ! 1 ! 0
       = Str []"
proof -
  let ?arr = "[[Str ''Bills'', Null], [Undefined, Str ''Jets''], [Str [], Str ''Rams'']]"
  have ne: "?arr \<noteq> []" by simp
  have rect: "\<forall>row \<in> set ?arr. length row = length (?arr ! 0)" by simp
  note t = transposePicks_rectangular [OF ne rect]
  from t have len: "length (transposePicks (Some ?arr)) = 2" by simp
  from t have row: "\<forall>e < 2. length (transposePicks (Some ?arr) ! e) = 3
      \<and> (\<forall>w < 3. transposePicks (Some ?arr) ! e ! w =
            (if truthy (?arr ! w ! e) then ?arr ! w ! e else Str []))"
    by simp
  then have r1: "length (transposePicks (Some ?arr) ! 1) = 3
      \<and> (\<forall>w < 3. transposePicks (Some ?arr) ! 1 ! w =
            (if truthy (?arr ! w ! 1) then ?arr ! w ! 1 else Str []))"
    by simp
  then have "transposePicks (Some ?arr) ! 1 ! 2 = Str ''Rams''"
    and "transposePicks (Some ?arr) ! 1 ! 0 = Str []"
    by simp_all
  with len r1 show ?thesis by simp
qed


section \<open>Properties of the pick table edits\<close>

lemma js_get_js_set_same: "js_get (js_set row e v) e = v"
  by (simp add: js_get_def js_set_def nth_append)

lemma js_get_js_set_other: "e' \<noteq> e \<Longrightarrow> js_get (js_set row e v) e' = js_get row e'"
  by (auto simp: js_get_def js_set_def nth_append nth_Cons')

lemma clear_later_map:
  "clear_later w e tm updated = take w updated @ map (clear_row e tm) (drop w updated)"
proof (induction w e tm updated rule: clear_later.induct)
  case (1 w e tm updated)
  show ?case
  proof (cases "w < length updated")
    case True
    let ?u = "updated[w := clear_row e tm (updated ! w)]"
    have step: "(if js_get (updated ! w) e = tm
                 then updated[w := js_set (updated ! w) e Null] else updated) = ?u"
      by (simp add: clear_row_def)
    have "clear_later w e tm updated = clear_later (Suc w) e tm ?u"
      using True by (subst clear_later.simps) (simp add: step)
    also have "\<dots> = take (Suc w) ?u @ map (clear_row e tm) (drop (Suc w) ?u)"
      using "1.IH" [OF True] by (simp add: step)
    also have "take (Suc w) ?u = take w updated @ [clear_row e tm (updated ! w)]"
      using True by (simp add: take_Suc_conv_app_nth)
    also have "drop (Suc w) ?u = drop (Suc w) updated"
      by simp
    finally show ?thesis
      using True by (simp add: Cons_nth_drop_Suc [symmetric])
  next
    case False
    then show ?thesis
      by (subst clear_later.simps) simp
  qed
qed

lemma handlePickChange_rows:
  assumes "handlePickChange w e tm picks = Inr picks'"
  shows "w < length picks"
    and "picks' = take w picks @ [js_set (picks ! w) e tm]
                    @ map (clear_row e tm) (drop (Suc w) picks)"
proof -
  show w: "w < length picks"
    using assms by (simp add: handlePickChange_def split: if_splits)
  have "picks' = clear_later (Suc w) e tm (picks[w := js_set (picks ! w) e tm])"
    using assms w by (simp add: handlePickChange_def)
  then show "picks' = take w picks @ [js_set (picks ! w) e tm]
                    @ map (clear_row e tm) (drop (Suc w) picks)"
    using w by (simp add: clear_later_map take_Suc_conv_app_nth)
qed

lemma js_get_clear_row_same:
  "js_get (clear_row e tm row) e = (if js_get row e = tm then Null else js_get row e)"
  by (simp add: clear_row_def js_get_js_set_same)

lemma js_get_clear_row_other: "e' \<noteq> e \<Longrightarrow> js_get (clear_row e tm row) e' = js_get row e'"
  by (simp add: clear_row_def js_get_js_set_other)

lemma entry_picks_handlePickChange_same:
  assumes "handlePickChange w e tm picks = Inr picks'"
  shows "entry_picks picks' e =
           take w (entry_picks picks e) @ [tm]
             @ map (\<lambda>v. if v = tm then Null else v) (drop (Suc w) (entry_picks picks e))"
  using handlePickChange_rows [OF assms]
  by (simp add: entry_picks_def take_map drop_map js_get_js_set_same js_get_clear_row_same
      comp_def)

lemma entry_picks_handlePickChange_other:
  assumes "handlePickChange w e tm picks = Inr picks'" and "e' \<noteq> e"
  shows "entry_picks picks' e' = entry_picks picks e'"
proof -
  note r = handlePickChange_rows [OF assms(1)]
  have "entry_picks picks' e' =
      take w (entry_picks picks e') @ [js_get (picks ! w) e']
        @ drop (Suc w) (entry_picks picks e')"
    using r assms(2)
    by (simp add: entry_picks_def take_map drop_map js_get_js_set_other
        js_get_clear_row_other comp_def)
  also have "\<dots> = entry_picks (take w picks @ picks ! w # drop (Suc w) picks) e'"
    by (simp add: entry_picks_def take_map drop_map)
  also have "\<dots> = entry_picks picks e'"
    using id_take_nth_drop [OF r(1)] by simp
  finally show ?thesis .
qed

lemma filter_truthy_cleared:
  "filter truthy (map (\<lambda>v. if v = tm then Null else v) xs) =
     filter (\<lambda>v. v \<noteq> tm) (filter truthy xs)"
  by (induction xs) auto

lemma distinct_after_assign:
  assumes d: "distinct (filter truthy col)"
    and w: "w < length col"
    and fresh: "truthy tm \<Longrightarrow> tm \<notin> set (take w col)"
  shows "distinct (filter truthy
           (take w col @ [tm] @ map (\<lambda>v. if v = tm then Null else v) (drop (Suc w) col)))"
proof -
  let ?A = "filter truthy (take w col)"
  let ?B = "filter truthy (drop (Suc w) col)"
  have "col = take w col @ col ! w # drop (Suc w) col"
    using w by (rule id_take_nth_drop)
  then have "distinct (filter truthy (take w col @ col ! w # drop (Suc w) col))"
    using d by simp
  then have dA: "distinct ?A" and dB: "distinct ?B" and disj: "set ?A \<inter> set ?B = {}"
    by (auto split: if_splits)
  have dB': "distinct (filter (\<lambda>v. v \<noteq> tm) ?B)"
    using dB by (rule distinct_filter)
  have sub: "set (filter (\<lambda>v. v \<noteq> tm) ?B) \<subseteq> set ?B"
    by auto
  show ?thesis
    using dA dB' disj sub fresh
    by (auto simp: filter_truthy_cleared)
qed

lemma no_reuse_handlePickChange_same:
  assumes "handlePickChange w e tm picks = Inr picks'"
    and "no_reuse picks e"
    and "truthy tm \<Longrightarrow> tm \<notin> set (take w (entry_picks picks e))"
  shows "no_reuse picks' e"
proof -
  have "w < length (entry_picks picks e)"
    using handlePickChange_rows(1) [OF assms(1)] by (simp add: entry_picks_def)
  then show ?thesis
    using assms(2,3) distinct_after_assign [of "entry_picks picks e" w tm]
    by (simp add: no_reuse_def entry_picks_handlePickChange_same [OF assms(1)])
qed

lemma no_reuse_handlePickChange_other:
  assumes "handlePickChange w e tm picks = Inr picks'" and "e' \<noteq> e" and "no_reuse picks e'"
  shows "no_reuse picks' e'"
  using assms by (simp add: no_reuse_def entry_picks_handlePickChange_other)

lemma set_prior_loop:
  "set (prior_loop picks weekIdx e w acc) =
     set acc \<union> {v. \<exists>w'. w \<le> w' \<and> w' < weekIdx \<and> w' < length picks
                    \<and> v = js_get (picks ! w') e \<and> truthy v}"
proof (induction picks weekIdx e w acc rule: prior_loop.induct)
  case (1 picks weekIdx e w acc)
  show ?case
  proof (cases "w < weekIdx")
    case True
    let ?acc = "if w < length picks \<and> truthy (js_get (picks ! w) e)
                then set_add (js_get (picks ! w) e) acc else acc"
    have "set (prior_loop picks weekIdx e w acc) = set (prior_loop picks weekIdx e (Suc w) ?acc)"
      using True by (subst prior_loop.simps) simp
    also have "\<dots> = set ?acc \<union> {v. \<exists>w'. Suc w \<le> w' \<and> w' < weekIdx \<and> w' < length picks
                    \<and> v = js_get (picks ! w') e \<and> truthy v}"
      using "1.IH" [OF True] by simp
    also have "\<dots> = set acc \<union> {v. \<exists>w'. w \<le> w' \<and> w' < weekIdx \<and> w' < length picks
                    \<and> v = js_get (picks ! w') e \<and> truthy v}"
      (is "?L = ?R")
    proof
      show "?L \<subseteq> ?R"
        using True by (auto simp: set_set_add intro: Suc_leD)
      show "?R \<subseteq> ?L"
      proof
        fix v assume "v \<in> ?R"
        then consider "v \<in> set acc"
          | w' where "w \<le> w'" "w' < weekIdx" "w' < length picks"
              "v = js_get (picks ! w') e" "truthy v"
          by blast
        then show "v \<in> ?L"
        proof cases
          case 1
          then show ?thesis by (auto simp: set_set_add)
        next
          case 2
          show ?thesis
          proof (cases "w' = w")
            case True
            with 2 show ?thesis by (auto simp: set_set_add)
          next
            case False
            with 2 have "Suc w \<le> w'" by simp
            with 2 show ?thesis by blast
          qed
        qed
      qed
    qed
    finally show ?thesis .
  next
    case False
    then show ?thesis
      by (subst prior_loop.simps) auto
  qed
qed

lemma offered_not_prior:
  assumes "tm \<in> set (getAvailableTeamsForEntryWeek schedule picks w e)"
    and "w' < w" and "w' < length picks" and "truthy (js_get (picks ! w') e)"
  shows "js_get (picks ! w') e \<noteq> Str tm"
proof
  assume eq: "js_get (picks ! w') e = Str tm"
  have "Str tm \<in> set (prior_loop picks w e 0 [])"
    using assms(2-4) eq unfolding set_prior_loop by auto
  with assms(1) show False
    by (simp add: getAvailableTeamsForEntryWeek_def Let_def)
qed

lemma offered_fresh:
  assumes "tm \<in> set (getAvailableTeamsForEntryWeek schedule picks w e)"
    and "truthy (Str tm)"
  shows "Str tm \<notin> set (take w (entry_picks picks e))"
proof
  assume "Str tm \<in> set (take w (entry_picks picks e))"
  then obtain i where i: "i < length (take w (entry_picks picks e))"
      and v: "take w (entry_picks picks e) ! i = Str tm"
    by (auto simp: in_set_conv_nth)
  from i have "i < w" and "i < length picks"
    by (simp_all add: entry_picks_def)
  moreover from v i have "js_get (picks ! i) e = Str tm"
    by (simp add: entry_picks_def)
  ultimately show False
    using offered_not_prior [OF assms(1), of i] assms(2) by simp
qed

lemma offered_edits_no_reuse:
  "offered_edits schedule es picks = Some picks' \<Longrightarrow> no_reuse picks e0 \<Longrightarrow> no_reuse picks' e0"
proof (induction es arbitrary: picks)
  case Nil
  then show ?case by simp
next
  case (Cons ed es)
  obtain w e tm where ed: "ed = (w, e, tm)"
    by (cases ed)
  from Cons.prems(1) ed
  have off: "tm \<in> set (getAvailableTeamsForEntryWeek schedule picks w e)"
    by (simp split: if_splits)
  with Cons.prems(1) ed obtain mid where
      h: "handlePickChange w e (Str tm) picks = Inr mid"
      and rest: "offered_edits schedule es mid = Some picks'"
    by (auto split: sum.splits)
  have "no_reuse mid e0"
  proof (cases "e0 = e")
    case True
    then show ?thesis
      using no_reuse_handlePickChange_same [OF h] Cons.prems(2) offered_fresh [OF off]
      by simp
  next
    case False
    then show ?thesis
      using no_reuse_handlePickChange_other [OF h] Cons.prems(2) by simp
  qed
  with rest show ?case
    by (rule Cons.IH)
qed

lemma handlePickChange_later_weeks:
  assumes "handlePickChange w e (Str tm) picks = Inr picks'"
    and "w < w'" and "w' < length picks'"
  shows "js_get (picks' ! w') e \<noteq> Str tm"
proof -
  note r = handlePickChange_rows [OF assms(1)]
  have len: "length picks' = length picks"
    using r by simp
  have "picks' ! w' = clear_row e (Str tm) (picks ! w')"
    using assms(2,3) r len
    by (simp add: nth_append nth_Cons' min_def)
  then show ?thesis
    by (simp add: js_get_clear_row_same)
qed

lemma handlePickChange_this_week:
  assumes "handlePickChange w e tm picks = Inr picks'"
  shows "js_get (picks' ! w) e = tm"
proof -
  note r = handlePickChange_rows [OF assms(1)]
  have "picks' ! w = js_set (picks ! w) e tm"
    using r by (simp add: nth_append min_def)
  then show ?thesis
    by (simp add: js_get_js_set_same)
qed


text \<open>
  C1, as the code has it. The teams of an entry stay pairwise distinct across the weeks
  along every sequence of edits that assigns, each time, a team that
  \<open>getAvailableTeamsForEntryWeek\<close> offers for that entry and week, from a table without
  reuse for that entry. After \<open>handlePickChange\<close> assigns team \<open>T\<close> to entry \<open>e\<close> in week
  \<open>w\<close>, that week holds \<open>T\<close> and no later week of the entry still holds it. And
  \<open>getAvailableTeamsForEntryWeek\<close> never offers, for entry \<open>e\<close> in week \<open>w\<close>, a team that the
  entry holds in an earlier week.
\<close>

theorem no_reuse_under_offered_edits:
  "(offered_edits schedule es picks = Some picks' \<longrightarrow> no_reuse picks e \<longrightarrow> no_reuse picks' e)
   \<and> (handlePickChange w1 e1 (Str tm1) picks1 = Inr picks1' \<longrightarrow>
        js_get (picks1' ! w1) e1 = Str tm1
        \<and> (\<forall>w'. w1 < w' \<and> w' < length picks1' \<longrightarrow> js_get (picks1' ! w') e1 \<noteq> Str tm1))
   \<and> (tm2 \<in> set (getAvailableTeamsForEntryWeek schedule2 picks2 w2 e2) \<longrightarrow>
        (\<forall>w'. w' < w2 \<and> w' < length picks2 \<and> truthy (js_get (picks2 ! w') e2)
              \<longrightarrow> js_get (picks2 ! w') e2 \<noteq> Str tm2))"
  using offered_edits_no_reuse [of schedule es picks picks' e]
    handlePickChange_this_week [of w1 e1 "Str tm1" picks1 picks1']
    handlePickChange_later_weeks [of w1 e1 tm1 picks1 picks1']
    offered_not_prior [of tm2 schedule2 picks2 w2 e2]
  by blast

theorem no_reuse_under_offered_edits_witness:
  "offered_edits
      [\<lparr>week = 1, home = ''Bills'', away = ''Jets''\<rparr>, \<lparr>week = 2, home = ''Bills'', away = ''Rams''\<rparr>]
      [(0, 0, ''Bills'')] [[Null], [Str ''Bills'']]
     = Some [[Str ''Bills''], [Null]]
   \<and> no_reuse [[Null], [Str ''Bills'']] 0
   \<and> no_reuse [[Str ''Bills''], [Null]] 0
   \<and> handlePickChange 0 0 (Str ''Bills'') [[Null], [Str ''Bills'']] = Inr [[Str ''Bills''], [Null]]
   \<and> js_get ([[Str ''Bills''], [Null]] ! 0) 0 = Str ''Bills''
   \<and> js_get ([[Str ''Bills''], [Null]] ! 1) 0 \<noteq> Str ''Bills''
   \<and> ''Rams'' \<in> set (getAvailableTeamsForEntryWeek
        [\<lparr>week = 1, home = ''Bills'', away = ''Jets''\<rparr>, \<lparr>week = 2, home = ''Bills'', away = ''Rams''\<rparr>]
        [[Str ''Bills''], [Null]] 1 0)
   \<and> truthy (js_get ([[Str ''Bills''], [Null]] ! 0) 0)
   \<and> js_get ([[Str ''Bills''], [Null]] ! 0) 0 \<noteq> Str ''Rams''"
proof -
  let ?S = "[\<lparr>week = 1, home = ''Bills'', away = ''Jets''\<rparr>, \<lparr>week = 2, home = ''Bills'', away = ''Rams''\<rparr>]"
  let ?P0 = "[[Null], [Str ''Bills'']]"
  let ?P1 = "[[Str ''Bills''], [Null]]"
  have h: "handlePickChange 0 0 (Str ''Bills'') ?P0 = Inr ?P1"
    by (simp add: handlePickChange_def clear_later.simps js_get_def js_set_def)
  have a0: "''Bills'' \<in> set (getAvailableTeamsForEntryWeek ?S ?P0 0 0)"
    by (simp add: getAvailableTeamsForEntryWeek_def add_game_teams_def set_add_def
        prior_loop.simps)
  have run: "offered_edits ?S [(0, 0, ''Bills'')] ?P0 = Some ?P1"
    using a0 h by simp
  have n0: "no_reuse ?P0 0"
    by (simp add: no_reuse_def entry_picks_def js_get_def)
  have a1: "''Rams'' \<in> set (getAvailableTeamsForEntryWeek ?S ?P1 1 0)"
    by (simp add: getAvailableTeamsForEntryWeek_def add_game_teams_def set_add_def
        prior_loop.simps js_get_def)
  have t1: "truthy (js_get (?P1 ! 0) 0)"
    by (simp add: js_get_def)
  note inst = no_reuse_under_offered_edits
    [of ?S "[(0, 0, ''Bills'')]" ?P0 ?P1 0 0 0 "''Bills''" ?P0 ?P1 "''Rams''" ?S ?P1 1 0]
  from inst run n0 have c1: "no_reuse ?P1 0"
    by blast
  from inst h have c2: "js_get (?P1 ! 0) 0 = Str ''Bills''"
    by blast
  from inst h have later:
    "\<forall>w'. 0 < w' \<and> w' < length ?P1 \<longrightarrow> js_get (?P1 ! w') 0 \<noteq> Str ''Bills''"
    by blast
  have c3: "js_get (?P1 ! 1) 0 \<noteq> Str ''Bills''"
    using later [rule_format, of 1] by simp
  from inst a1 have prior:
    "\<forall>w'. w' < 1 \<and> w' < length ?P1 \<and> truthy (js_get (?P1 ! w') 0)
          \<longrightarrow> js_get (?P1 ! w') 0 \<noteq> Str ''Rams''"
    by blast
  have c4: "js_get (?P1 ! 0) 0 \<noteq> Str ''Rams''"
    using prior [rule_format, of 0] t1 by simp
  from run n0 c1 h c2 c3 a1 t1 c4 show ?thesis
    by blast
qed

text \<open>
  \<open>handlePickChange\<close> alone does not look at the earlier weeks: assigning in week 2 the
  team the entry already holds in week 1 leaves the entry with the same team twice.
\<close>

theorem no_reuse_any_edits_counterexample:
  "handlePickChange 0 0 (Str ''Bills'') [[Null], [Null]] = Inr [[Str ''Bills''], [Null]]
   \<and> handlePickChange 1 0 (Str ''Bills'') [[Str ''Bills''], [Null]]
       = Inr [[Str ''Bills''], [Str ''Bills'']]
   \<and> no_reuse [[Null], [Null]] 0
   \<and> \<not> no_reuse [[Str ''Bills''], [Str ''Bills'']] 0"
  by (simp add: handlePickChange_def clear_later.simps js_get_def js_set_def no_reuse_def
      entry_picks_def)


section \<open>Properties of the summary order\<close>

lemma mset_place: "mset (place cmp x ys) = add_mset x (mset ys)"
  by (induction ys) simp_all

lemma mset_js_sort: "mset (js_sort cmp xs) = mset xs"
  by (induction xs) (simp_all add: mset_place)

lemma set_place: "set (place cmp x ys) = insert x (set ys)"
  using mset_place [of cmp x ys] by (metis set_mset_add_mset_insert set_mset_mset)

lemma sorted_place:
  "sorted_wrt (\<lambda>a b. expected_value b \<le> expected_value a) ys \<Longrightarrow>
   sorted_wrt (\<lambda>a b. expected_value b \<le> expected_value a) (place by_expected_value x ys)"
proof (induction ys)
  case Nil
  then show ?case by simp
next
  case (Cons y ys)
  show ?case
  proof (cases "by_expected_value x y \<le> 0")
    case True
    then have "expected_value y \<le> expected_value x"
      by (simp add: by_expected_value_def)
    with Cons.prems True show ?thesis
      by fastforce
  next
    case False
    then have "expected_value x \<le> expected_value y"
      by (simp add: by_expected_value_def)
    with Cons False show ?thesis
      by (auto simp: set_place)
  qed
qed

lemma sorted_js_sort:
  "sorted_wrt (\<lambda>a b. expected_value b \<le> expected_value a) (js_sort by_expected_value xs)"
  by (induction xs) (simp_all add: sorted_place)

lemma filter_place:
  "filter (\<lambda>s. expected_value s = v) (place by_expected_value x ys) =
     (if expected_value x = v then x # filter (\<lambda>s. expected_value s = v) ys
      else filter (\<lambda>s. expected_value s = v) ys)"
  by (induction ys) (auto simp: by_expected_value_def)

lemma filter_js_sort:
  "filter (\<lambda>s. expected_value s = v) (js_sort by_expected_value xs) =
     filter (\<lambda>s. expected_value s = v) xs"
  by (induction xs) (simp_all add: filter_place)

text \<open>
  C2, as the code has it. The week summary is ordered descending by expected value: in
  the list set as \<open>summaryData\<close> the expected value never increases from a summary to a
  later one. It is a rearrangement of the received list, and summaries with the same
  expected value keep the order in which they were received; the win probability and
  the team name play no part.
\<close>

theorem fetchSummary_descending_stable:
  "sorted_wrt (\<lambda>a b. expected_value b \<le> expected_value a) (fst (fetchSummary summary))
   \<and> mset (fst (fetchSummary summary)) = mset summary
   \<and> (\<forall>v. filter (\<lambda>s. expected_value s = v) (fst (fetchSummary summary)) =
            filter (\<lambda>s. expected_value s = v) summary)"
  by (simp add: fetchSummary_def Let_def sorted_js_sort mset_js_sort filter_js_sort)

text \<open>
  Two summaries with the same expected value stay in the received order, although the
  second has the greater win probability: the adjacent pair meets none of the three
  alternatives of the ranking by expected value, then win probability, then team name.
\<close>

theorem fetchSummary_tie_break_counterexample:
  "fst (fetchSummary [bills_summary, chiefs_summary]) = [bills_summary, chiefs_summary]
   \<and> \<not> (expected_value bills_summary > expected_value chiefs_summary
        \<or> (expected_value bills_summary = expected_value chiefs_summary
            \<and> win_prob bills_summary > win_prob chiefs_summary)
        \<or> (expected_value bills_summary = expected_value chiefs_summary
            \<and> win_prob bills_summary = win_prob chiefs_summary
            \<and> team bills_summary \<le> team chiefs_summary))"
  by (simp add: fetchSummary_def Let_def by_expected_value_def bills_summary_def
      chiefs_summary_def)


section \<open>Properties of the number inputs\<close>

lemma digit_value_digit_char: "d < 36 \<Longrightarrow> digit_value (digit_char d) = Some d"
  by (simp add: digit_value_def digit_char_def Let_def)

lemma is_digit_in_digit_char: "d < r \<Longrightarrow> r \<le> 36 \<Longrightarrow> is_digit_in r (digit_char d)"
  by (simp add: is_digit_in_def digit_value_digit_char)

lemma digits_in_digits:
  "2 \<le> r \<Longrightarrow> r \<le> 36 \<Longrightarrow> c \<in> set (digits_in r n) \<Longrightarrow> is_digit_in r c"
proof (induction r n rule: digits_in.induct)
  case (1 r n)
  show ?case
  proof (cases "n < r")
    case True
    with "1.prems" show ?thesis
      by (subst (asm) digits_in.simps) (auto simp: is_digit_in_digit_char)
  next
    case False
    with "1.prems"(1) have rec: "\<not> (n < r \<or> r < 2)" by simp
    from "1.prems"(3) rec
    have "c \<in> set (digits_in r (n div r)) \<or> c = digit_char (n mod r)"
      by (subst (asm) digits_in.simps) auto
    then show ?thesis
    proof
      assume "c \<in> set (digits_in r (n div r))"
      with "1.IH" [OF rec "1.prems"(1,2)] show ?thesis .
    next
      assume "c = digit_char (n mod r)"
      with "1.prems"(1,2) show ?thesis
        by (simp add: is_digit_in_digit_char)
    qed
  qed
qed

lemma digits_in_not_Nil: "digits_in r n \<noteq> []"
  by (subst digits_in.simps) simp

lemma digits_value_snoc:
  "digit_value c = Some d \<Longrightarrow> digits_value r (ds @ [c]) = digits_value r ds * r + d"
  by (simp add: digits_value_def)

lemma digits_value_single: "digit_value c = Some d \<Longrightarrow> digits_value r [c] = d"
  by (simp add: digits_value_def)

lemma digits_value_digits_in:
  "2 \<le> r \<Longrightarrow> r \<le> 36 \<Longrightarrow> digits_value r (digits_in r n) = n"
proof (induction r n rule: digits_in.induct)
  case (1 r n)
  show ?case
  proof (cases "n < r")
    case True
    with "1.prems" have "digit_value (digit_char n) = Some n"
      by (simp add: digit_value_digit_char)
    with True show ?thesis
      by (subst digits_in.simps) (simp add: digits_value_single)
  next
    case False
    with "1.prems"(1) have rec: "\<not> (n < r \<or> r < 2)" by simp
    from "1.prems" have "n mod r < r"
      by simp
    with "1.prems" have "n mod r < 36"
      by linarith
    then have "digit_value (digit_char (n mod r)) = Some (n mod r)"
      by (rule digit_value_digit_char)
    then have "digits_value r (digits_in r (n div r) @ [digit_char (n mod r)])
        = digits_value r (digits_in r (n div r)) * r + n mod r"
      by (rule digits_value_snoc)
    also have "\<dots> = n div r * r + n mod r"
      using "1.IH" [OF rec "1.prems"] by simp
    also have "\<dots> = n"
      by simp
    finally show ?thesis
      using rec by (subst digits_in.simps) simp
  qed
qed

lemma decimal_digit_code:
  assumes "is_digit_in 10 c"
  shows "48 \<le> (of_char c :: nat) \<and> (of_char c :: nat) \<le> 57"
  using assms
  by (auto simp: is_digit_in_def digit_value_def Let_def split: if_splits)

lemma decimal_digit_plain:
  assumes "is_digit_in 10 c"
  shows "\<not> is_js_space c" and "c \<noteq> CHR ''+''" and "c \<noteq> CHR ''-''"
    and "c \<noteq> CHR ''x''" and "c \<noteq> CHR ''X''"
  using decimal_digit_code [OF assms]
  by (auto simp: is_js_space_def)

lemma parseInt_decimal_digits:
  assumes ne: "ds \<noteq> []" and dig: "\<forall>c \<in> set ds. is_digit_in 10 c"
  shows "parseInt ds None = Num (int (digits_value 10 ds))"
    and "parseInt (CHR ''-'' # ds) None = Num (- int (digits_value 10 ds))"
proof -
  from ne obtain c cs where ds: "ds = c # cs"
    by (cases ds) auto
  with dig have c: "is_digit_in 10 c"
    by simp
  note p = decimal_digit_plain [OF c]
  have nohex: "take 2 ds \<noteq> ''0x''" "take 2 ds \<noteq> ''0X''"
  proof -
    have "CHR ''x'' \<notin> set ds" "CHR ''X'' \<notin> set ds"
      using dig decimal_digit_plain(4,5) by blast+
    moreover have "set (take 2 ds) \<subseteq> set ds"
      by (rule set_take_subset)
    ultimately show "take 2 ds \<noteq> ''0x''" "take 2 ds \<noteq> ''0X''"
      by auto
  qed
  have tw: "takeWhile (is_digit_in 10) ds = ds"
    using dig by (simp add: takeWhile_eq_all_conv)
  have sp: "dropWhile is_js_space ds = ds"
    using p(1) ds by simp
  have sign: "take 1 ds \<noteq> ''+''" "take 1 ds \<noteq> ''-''"
    using p(2,3) ds by simp_all
  show "parseInt ds None = Num (int (digits_value 10 ds))"
    using ne nohex sign by (simp add: parseInt_def Let_def sp tw)
  have msp: "\<not> is_js_space CHR ''-''"
    by (simp add: is_js_space_def)
  show "parseInt (CHR ''-'' # ds) None = Num (- int (digits_value 10 ds))"
    using ne nohex by (simp add: parseInt_def Let_def msp tw)
qed

lemma parseInt_decimal: "parseInt (decimal n) None = Num n"
proof -
  have dig: "\<forall>c \<in> set (digits_in 10 k). is_digit_in 10 c" for k
    using digits_in_digits [of 10 _ k] by simp
  have val: "digits_value 10 (digits_in 10 k) = k" for k
    by (simp add: digits_value_digits_in)
  show ?thesis
  proof (cases "n < 0")
    case True
    then show ?thesis
      using parseInt_decimal_digits(2) [OF digits_in_not_Nil dig, of "nat (- n)"]
      by (simp add: decimal_def val)
  next
    case False
    then show ?thesis
      using parseInt_decimal_digits(1) [OF digits_in_not_Nil dig, of "nat n"]
      by (simp add: decimal_def val)
  qed
qed


lemma parseInt_examples:
  "parseInt ''19'' None = Num 19" "parseInt ''019'' None = Num 19"
  "parseInt ''0'' None = Num 0" "parseInt ''011'' None = Num 11"
  "parseInt ''11'' None = Num 11" "parseInt ''-3'' None = Num (- 3)"
  by (simp_all add: parseInt_def is_js_space_def is_digit_in_def digit_value_def
      digits_value_def)

text \<open>
  C5, as the code has it. In the component of \<open>src/unnamed/part_000\<close> the week input never
  fails on a week outside 1 to 18, it clamps: for every text that \<open>parseInt\<close> reads as an
  integer \<open>n\<close>, the week becomes 18 when \<open>n\<close> is above 18, 1 when \<open>n\<close> is below 1, and \<open>n\<close>
  otherwise; in particular so for the decimal text of every integer. The week becomes
  \<open>NaN\<close> exactly when \<open>parseInt\<close> yields \<open>NaN\<close>, and is otherwise a week from 1 to 18. The older
  copy \<open>src/frontend/src/SurvivorUI.jsx\<close> does not clamp and does not fail either: it
  stores the integer that \<open>parseInt\<close> reads (of magnitude at most \<open>2^53\<close>) as it is, and
  \<open>NaN\<close> exactly when \<open>parseInt\<close> yields \<open>NaN\<close>.
\<close>

theorem week_onChange_clamps:
  "(parseInt v None = Num n \<longrightarrow>
      week_onChange v = Num (if 18 < n then 18 else if n < 1 then 1 else n))
   \<and> (week_onChange v = NaN) = (parseInt v None = NaN)
   \<and> week_onChange v \<in> insert NaN (Num ` {1..18})
   \<and> week_onChange (decimal m) = Num (if 18 < m then 18 else if m < 1 then 1 else m)
   \<and> (parseInt v None = Num n \<longrightarrow> - (2 ^ 53) \<le> n \<longrightarrow> n \<le> 2 ^ 53 \<longrightarrow>
        week_onChange_frontend v = Num n)
   \<and> (week_onChange_frontend v = NaN) = (parseInt v None = NaN)"
proof -
  have "parseInt v None = Num n \<longrightarrow>
      week_onChange v = Num (if 18 < n then 18 else if n < 1 then 1 else n)"
    by (simp add: week_onChange_def)
  moreover have "(week_onChange v = NaN) = (parseInt v None = NaN)"
    by (cases "parseInt v None") (simp_all add: week_onChange_def)
  moreover have "week_onChange v \<in> insert NaN (Num ` {1..18})"
    by (cases "parseInt v None") (auto simp: week_onChange_def)
  moreover have "week_onChange (decimal m) = Num (if 18 < m then 18 else if m < 1 then 1 else m)"
    by (simp add: week_onChange_def parseInt_decimal)
  moreover have "parseInt v None = Num n \<longrightarrow> - (2 ^ 53) \<le> n \<longrightarrow> n \<le> 2 ^ 53 \<longrightarrow>
      week_onChange_frontend v = Num n"
    by (simp add: week_onChange_frontend_def)
  moreover have "(week_onChange_frontend v = NaN) = (parseInt v None = NaN)"
    by (simp add: week_onChange_frontend_def)
  ultimately show ?thesis
    by blast
qed

theorem week_onChange_clamps_witness:
  "parseInt ''019'' None = Num 19
   \<and> - (2 ^ 53) \<le> (19 :: int) \<and> (19 :: int) \<le> 2 ^ 53
   \<and> week_onChange ''019'' = Num 18
   \<and> week_onChange_frontend ''019'' = Num 19"
proof -
  have p: "parseInt ''019'' None = Num 19"
    by (rule parseInt_examples)
  have lo: "- (2 ^ 53) \<le> (19 :: int)" and hi: "(19 :: int) \<le> 2 ^ 53"
    by simp_all
  from week_onChange_clamps [of "''019''" 19] p lo hi show ?thesis
    by simp
qed

text \<open>
  The weeks 19 and 0 are outside 1 to 18. The handler of \<open>src/unnamed/part_000\<close> turns
  them into the weeks 18 and 1, and the older copy stores 19 and 0; neither fails.
\<close>

theorem week_onChange_counterexample:
  "parseInt ''19'' None = Num 19 \<and> week_onChange ''19'' = Num 18
   \<and> parseInt ''0'' None = Num 0 \<and> week_onChange ''0'' = Num 1
   \<and> week_onChange_frontend ''19'' = Num 19 \<and> week_onChange_frontend ''0'' = Num 0"
  by (simp add: week_onChange_def week_onChange_frontend_def parseInt_examples)

text \<open>
  C6, as the code has it. The entries input makes no range check and never fails: for
  every text that \<open>parseInt\<close> reads as an integer \<open>n\<close> of magnitude at most \<open>2^53\<close> (the range
  in which a double holds every integer exactly), zero, negative or above the maximum
  of 10 included, the entry count becomes \<open>n\<close>; in particular so for the decimal text of
  every such integer. The entry count becomes \<open>NaN\<close> exactly when \<open>parseInt\<close> yields \<open>NaN\<close>.
\<close>

theorem entries_onChange_unchecked:
  "(parseInt v None = Num n \<longrightarrow> - (2 ^ 53) \<le> n \<longrightarrow> n \<le> 2 ^ 53 \<longrightarrow>
      entries_onChange v = Num n)
   \<and> (entries_onChange v = NaN) = (parseInt v None = NaN)
   \<and> (- (2 ^ 53) \<le> m \<longrightarrow> m \<le> 2 ^ 53 \<longrightarrow> entries_onChange (decimal m) = Num m)"
  by (simp add: entries_onChange_def parseInt_decimal)

theorem entries_onChange_unchecked_witness:
  "parseInt ''011'' None = Num 11
   \<and> - (2 ^ 53) \<le> (11 :: int) \<and> (11 :: int) \<le> 2 ^ 53
   \<and> entries_onChange ''011'' = Num 11
   \<and> - (2 ^ 53) \<le> (- 3 :: int) \<and> (- 3 :: int) \<le> 2 ^ 53
   \<and> decimal (- 3) = ''-3'' \<and> entries_onChange (decimal (- 3)) = Num (- 3)"
proof -
  have p: "parseInt ''011'' None = Num 11"
    by (rule parseInt_examples)
  have b: "- (2 ^ 53) \<le> (11 :: int)" "(11 :: int) \<le> 2 ^ 53"
    "- (2 ^ 53) \<le> (- 3 :: int)" "(- 3 :: int) \<le> 2 ^ 53"
    by simp_all
  have d: "decimal (- 3) = ''-3''"
    by code_simp
  from entries_onChange_unchecked [of "''011''" 11 "- 3"] p b
  have "entries_onChange ''011'' = Num 11" and "entries_onChange (decimal (- 3)) = Num (- 3)"
    by blast+
  with p b d show ?thesis
    by simp
qed

text \<open>
  The entry counts 0, 11 and \<open>-3\<close> are outside 1 to 10; the handler stores each of them.
\<close>

theorem entries_onChange_counterexample:
  "entries_onChange ''0'' = Num 0 \<and> entries_onChange ''11'' = Num 11
   \<and> entries_onChange ''-3'' = Num (- 3)"
  by (simp add: entries_onChange_def parseInt_examples)


section \<open>Properties of the colour interpolation\<close>

lemma hex_digit_code:
  assumes "c \<in> set ''0123456789abcdef''"
  shows "48 \<le> (of_char c :: nat) \<and> (of_char c :: nat) \<le> 57
         \<or> 97 \<le> (of_char c :: nat) \<and> (of_char c :: nat) \<le> 102"
proof -
  have "''0123456789abcdef'' = ''0123456789'' @ ''abcdef''"
    by simp
  with assms have "c \<in> set ''0123456789'' \<or> c \<in> set ''abcdef''"
    by (simp only: set_append Un_iff)
  then show ?thesis
  proof
    assume "c \<in> set ''0123456789''"
    then have "48 \<le> (of_char c :: nat) \<and> (of_char c :: nat) \<le> 57"
      by auto
    then show ?thesis ..
  next
    assume "c \<in> set ''abcdef''"
    then have "97 \<le> (of_char c :: nat) \<and> (of_char c :: nat) \<le> 102"
      by auto
    then show ?thesis ..
  qed
qed

lemma hex_digit_cases:
  assumes "c \<in> set ''0123456789abcdef''"
  obtains d where "d < 16" and "digit_value c = Some d" and "digit_char d = c"
    and "\<not> is_js_space c" and "c \<noteq> CHR ''+''" and "c \<noteq> CHR ''-''"
    and "c \<noteq> CHR ''x''" and "c \<noteq> CHR ''X''" and "c \<noteq> CHR ''#''"
proof -
  let ?n = "of_char c :: nat"
  note rng = hex_digit_code [OF assms]
  have rt: "char_of ?n = c"
    by simp
  have "\<exists>d < 16. digit_value c = Some d \<and> digit_char d = c"
    using rng
  proof
    assume r: "48 \<le> ?n \<and> ?n \<le> 57"
    then have "?n - 48 < 16"
      by linarith
    moreover from r have "digit_value c = Some (?n - 48)"
      by (simp add: digit_value_def Let_def)
    moreover have "digit_char (?n - 48) = char_of ?n"
    proof -
      from r have "?n - 48 < 10" and "48 + (?n - 48) = ?n"
        by linarith+
      then show ?thesis
        by (simp only: digit_char_def if_True)
    qed
    ultimately show ?thesis
      using rt by metis
  next
    assume r: "97 \<le> ?n \<and> ?n \<le> 102"
    then have "?n - 87 < 16"
      by linarith
    moreover from r have "digit_value c = Some (?n - 87)"
      by (simp add: digit_value_def Let_def)
    moreover have "digit_char (?n - 87) = char_of ?n"
    proof -
      from r have "\<not> ?n - 87 < 10" and "87 + (?n - 87) = ?n"
        by linarith+
      then show ?thesis
        by (simp only: digit_char_def if_False)
    qed
    ultimately show ?thesis
      using rt by metis
  qed
  moreover have "\<not> is_js_space c \<and> c \<noteq> CHR ''+'' \<and> c \<noteq> CHR ''-''
      \<and> c \<noteq> CHR ''x'' \<and> c \<noteq> CHR ''X'' \<and> c \<noteq> CHR ''#''"
    using rng by (auto simp: is_js_space_def)
  ultimately show ?thesis
    using that by blast
qed

lemma parseInt_hex_pair:
  assumes "digit_value c = Some d" and "d < 16" and "digit_value c' = Some d'" and "d' < 16"
    and "\<not> is_js_space c" and "c \<noteq> CHR ''+''" and "c \<noteq> CHR ''-''" and "c' \<noteq> CHR ''x''"
    and "c' \<noteq> CHR ''X''"
  shows "parseInt [c, c'] (Some 16) = Num (int (d * 16 + d'))"
  using assms
  by (simp add: parseInt_def Let_def is_digit_in_def digits_value_def)

lemma to_int32_small: "0 \<le> x \<Longrightarrow> x < 2 ^ 31 \<Longrightarrow> to_int32 x = x"
  by (simp add: to_int32_def Let_def)

lemma js_shl_byte:
  assumes "0 \<le> x" and "x < 256"
  shows "js_shl (Num x) 16 = x * 65536" and "js_shl (Num x) 8 = x * 256"
proof -
  from assms have x: "to_int32 x = x"
    by (simp add: to_int32_small)
  from assms have "0 \<le> x * 65536" and "x * 65536 < 2 ^ 31"
    and "0 \<le> x * 256" and "x * 256 < 2 ^ 31"
    by simp_all
  then show "js_shl (Num x) 16 = x * 65536" and "js_shl (Num x) 8 = x * 256"
    by (simp_all add: x to_int32_small)
qed

lemma js_shl_one: "js_shl (Num 1) 24 = 16777216"
  by (simp add: to_int32_def Let_def)

lemma math_round_lerp_ends:
  "math_round (lerp (Num x) (Num y) 0) = Num x"
  "math_round (lerp (Num x) (Num y) 1) = Num y"
proof -
  have "\<lfloor>real_of_int z + 1 / 2\<rfloor> = z" for z
    by linarith
  then show "math_round (lerp (Num x) (Num y) 0) = Num x"
    and "math_round (lerp (Num x) (Num y) 1) = Num y"
    by simp_all
qed

lemma digits_in_snoc:
  assumes "0 < x" and "d < 16"
  shows "digits_in 16 (x * 16 + d) = digits_in 16 x @ [digit_char d]"
proof -
  from assms have "\<not> (x * 16 + d < 16 \<or> (16::nat) < 2)"
    by simp
  moreover from assms have "(x * 16 + d) div 16 = x" and "(x * 16 + d) mod 16 = d"
    by simp_all
  ultimately show ?thesis
    by (subst digits_in.simps) simp
qed

lemma digits_in_six:
  assumes "d1 < 16" "d2 < 16" "d3 < 16" "d4 < 16" "d5 < 16" "d6 < 16"
  shows "digits_in 16 (16777216 + (d1 * 16 + d2) * 65536 + (d3 * 16 + d4) * 256 + (d5 * 16 + d6))
    = [digit_char 1, digit_char d1, digit_char d2, digit_char d3, digit_char d4,
       digit_char d5, digit_char d6]"
proof -
  have one: "digits_in 16 1 = [digit_char 1]"
    by (subst digits_in.simps) simp
  define x1 where "x1 = 1 * 16 + d1"
  define x2 where "x2 = x1 * 16 + d2"
  define x3 where "x3 = x2 * 16 + d3"
  define x4 where "x4 = x3 * 16 + d4"
  define x5 where "x5 = x4 * 16 + d5"
  have pos: "0 < x1" "0 < x2" "0 < x3" "0 < x4" "0 < x5"
    by (simp_all add: x1_def x2_def x3_def x4_def x5_def)
  have s1: "digits_in 16 x1 = [digit_char 1, digit_char d1]"
    unfolding x1_def using digits_in_snoc [of 1 d1] assms(1) one by simp
  have s2: "digits_in 16 x2 = digits_in 16 x1 @ [digit_char d2]"
    unfolding x2_def using pos(1) assms(2) by (rule digits_in_snoc)
  have s3: "digits_in 16 x3 = digits_in 16 x2 @ [digit_char d3]"
    unfolding x3_def using pos(2) assms(3) by (rule digits_in_snoc)
  have s4: "digits_in 16 x4 = digits_in 16 x3 @ [digit_char d4]"
    unfolding x4_def using pos(3) assms(4) by (rule digits_in_snoc)
  have s5: "digits_in 16 x5 = digits_in 16 x4 @ [digit_char d5]"
    unfolding x5_def using pos(4) assms(5) by (rule digits_in_snoc)
  have s6: "digits_in 16 (x5 * 16 + d6) = digits_in 16 x5 @ [digit_char d6]"
    using pos(5) assms(6) by (rule digits_in_snoc)
  have "16777216 + (d1 * 16 + d2) * 65536 + (d3 * 16 + d4) * 256 + (d5 * 16 + d6)
      = x5 * 16 + d6"
    by (simp add: x1_def x2_def x3_def x4_def x5_def)
  then show ?thesis
    by (simp only: s6 s5 s4 s3 s2 s1 append.simps)
qed


lemma pack_bytes:
  assumes "0 \<le> x" "x < 256" "0 \<le> y" "y < 256"
  shows "js_add (js_shl (Num 1) 24 + js_shl (Num x) 16 + js_shl (Num y) 8) (Num z)
         = Num (16777216 + x * 65536 + y * 256 + z)"
  by (simp only: js_shl_one js_shl_byte [OF assms(1,2)] js_shl_byte [OF assms(3,4)] js_add.simps)

lemma encode_bytes:
  assumes "d1 < 16" "d2 < 16" "d3 < 16" "d4 < 16" "d5 < 16" "d6 < 16"
  shows "drop 1 (to_string16
           (js_add (js_shl (Num 1) 24 + js_shl (Num (int (d1 * 16 + d2))) 16
                      + js_shl (Num (int (d3 * 16 + d4))) 8)
                   (Num (int (d5 * 16 + d6)))))
         = [digit_char d1, digit_char d2, digit_char d3, digit_char d4,
            digit_char d5, digit_char d6]"
proof -
  let ?n = "16777216 + (d1 * 16 + d2) * 65536 + (d3 * 16 + d4) * 256 + (d5 * 16 + d6)"
  from assms have r: "0 \<le> int (d1 * 16 + d2)" "int (d1 * 16 + d2) < 256"
    and g: "0 \<le> int (d3 * 16 + d4)" "int (d3 * 16 + d4) < 256"
    by simp_all
  have "16777216 + int (d1 * 16 + d2) * 65536 + int (d3 * 16 + d4) * 256 + int (d5 * 16 + d6)
      = int ?n"
    by simp
  then have "js_add (js_shl (Num 1) 24 + js_shl (Num (int (d1 * 16 + d2))) 16
                      + js_shl (Num (int (d3 * 16 + d4))) 8)
                   (Num (int (d5 * 16 + d6)))
      = Num (int ?n)"
    by (simp only: pack_bytes [OF r g])
  moreover have "to_string16 (Num (int ?n)) = digits_in 16 ?n"
    by (simp only: to_string16.simps nat_int) simp
  ultimately show ?thesis
    by (simp only: digits_in_six [OF assms]) simp
qed

lemma color_shape:
  assumes "is_color a"
  obtains c1 c2 c3 c4 c5 c6 where "a = CHR ''#'' # [c1, c2, c3, c4, c5, c6]"
    and "set [c1, c2, c3, c4, c5, c6] \<subseteq> set ''0123456789abcdef''"
proof -
  from assms have len: "length a = 7" and h: "take 1 a = ''#''"
    and hex: "set (drop 1 a) \<subseteq> set ''0123456789abcdef''"
    by (simp_all add: is_color_def)
  from len obtain c0 c1 c2 c3 c4 c5 c6 where a: "a = [c0, c1, c2, c3, c4, c5, c6]"
    by (auto simp: numeral_eq_Suc length_Suc_conv)
  with h have "c0 = CHR ''#''"
    by simp
  with a hex that show ?thesis
    by simp
qed

lemma interpolateColor_channels:
  assumes "set [c1, c2, c3, c4, c5, c6] \<subseteq> set ''0123456789abcdef''"
  obtains d1 d2 d3 d4 d5 d6 where
    "d1 < 16" "d2 < 16" "d3 < 16" "d4 < 16" "d5 < 16" "d6 < 16"
    and "[c1, c2, c3, c4, c5, c6]
          = [digit_char d1, digit_char d2, digit_char d3, digit_char d4,
             digit_char d5, digit_char d6]"
    and "remove1 (CHR ''#'') (CHR ''#'' # [c1, c2, c3, c4, c5, c6]) = [c1, c2, c3, c4, c5, c6]"
    and "parseInt (substring [c1, c2, c3, c4, c5, c6] 0 2) (Some 16) = Num (int (d1 * 16 + d2))"
    and "parseInt (substring [c1, c2, c3, c4, c5, c6] 2 4) (Some 16) = Num (int (d3 * 16 + d4))"
    and "parseInt (substring [c1, c2, c3, c4, c5, c6] 4 6) (Some 16) = Num (int (d5 * 16 + d6))"
proof -
  from assms have m: "c1 \<in> set ''0123456789abcdef''" "c2 \<in> set ''0123456789abcdef''"
    "c3 \<in> set ''0123456789abcdef''" "c4 \<in> set ''0123456789abcdef''"
    "c5 \<in> set ''0123456789abcdef''" "c6 \<in> set ''0123456789abcdef''"
    by simp_all
  from m(1) obtain d1 where d1: "d1 < 16" "digit_value c1 = Some d1" "digit_char d1 = c1"
    "\<not> is_js_space c1" "c1 \<noteq> CHR ''+''" "c1 \<noteq> CHR ''-''"
    by (rule hex_digit_cases)
  from m(2) obtain d2 where d2: "d2 < 16" "digit_value c2 = Some d2" "digit_char d2 = c2"
    "c2 \<noteq> CHR ''x''" "c2 \<noteq> CHR ''X''"
    by (rule hex_digit_cases)
  from m(3) obtain d3 where d3: "d3 < 16" "digit_value c3 = Some d3" "digit_char d3 = c3"
    "\<not> is_js_space c3" "c3 \<noteq> CHR ''+''" "c3 \<noteq> CHR ''-''"
    by (rule hex_digit_cases)
  from m(4) obtain d4 where d4: "d4 < 16" "digit_value c4 = Some d4" "digit_char d4 = c4"
    "c4 \<noteq> CHR ''x''" "c4 \<noteq> CHR ''X''"
    by (rule hex_digit_cases)
  from m(5) obtain d5 where d5: "d5 < 16" "digit_value c5 = Some d5" "digit_char d5 = c5"
    "\<not> is_js_space c5" "c5 \<noteq> CHR ''+''" "c5 \<noteq> CHR ''-''"
    by (rule hex_digit_cases)
  from m(6) obtain d6 where d6: "d6 < 16" "digit_value c6 = Some d6" "digit_char d6 = c6"
    "c6 \<noteq> CHR ''x''" "c6 \<noteq> CHR ''X''"
    by (rule hex_digit_cases)
  have nohash: "c1 \<noteq> CHR ''#''"
    using m(1) by (rule hex_digit_cases)
  have p1: "parseInt [c1, c2] (Some 16) = Num (int (d1 * 16 + d2))"
    using d1(2,1) d2(2,1) d1(4,5,6) d2(4,5) by (rule parseInt_hex_pair)
  have p2: "parseInt [c3, c4] (Some 16) = Num (int (d3 * 16 + d4))"
    using d3(2,1) d4(2,1) d3(4,5,6) d4(4,5) by (rule parseInt_hex_pair)
  have p3: "parseInt [c5, c6] (Some 16) = Num (int (d5 * 16 + d6))"
    using d5(2,1) d6(2,1) d5(4,5,6) d6(4,5) by (rule parseInt_hex_pair)
  show ?thesis
  proof (rule that [of d1 d2 d3 d4 d5 d6])
    show "d1 < 16" "d2 < 16" "d3 < 16" "d4 < 16" "d5 < 16" "d6 < 16"
      by fact+
    show "[c1, c2, c3, c4, c5, c6]
          = [digit_char d1, digit_char d2, digit_char d3, digit_char d4,
             digit_char d5, digit_char d6]"
      by (simp add: d1 d2 d3 d4 d5 d6)
    show "remove1 (CHR ''#'') (CHR ''#'' # [c1, c2, c3, c4, c5, c6]) = [c1, c2, c3, c4, c5, c6]"
      by simp
    show "parseInt (substring [c1, c2, c3, c4, c5, c6] 0 2) (Some 16) = Num (int (d1 * 16 + d2))"
      using p1 by (simp add: substring_def)
    show "parseInt (substring [c1, c2, c3, c4, c5, c6] 2 4) (Some 16) = Num (int (d3 * 16 + d4))"
      using p2 by (simp add: substring_def)
    show "parseInt (substring [c1, c2, c3, c4, c5, c6] 4 6) (Some 16) = Num (int (d5 * 16 + d6))"
      using p3 by (simp add: substring_def)
  qed
qed

text \<open>
  C10. For all colour strings \<open>a\<close> and \<open>b\<close>, each \<open>#\<close> followed by six lowercase hexadecimal
  digits, \<open>interpolateColor(a, b, 0)\<close> is \<open>a\<close> and \<open>interpolateColor(a, b, 1)\<close> is \<open>b\<close>.
\<close>

theorem interpolateColor_endpoints:
  assumes "is_color a" and "is_color b"
  shows "interpolateColor a b 0 = a \<and> interpolateColor a b 1 = b"
proof -
  from assms(1) obtain a1 a2 a3 a4 a5 a6 where
      a: "a = CHR ''#'' # [a1, a2, a3, a4, a5, a6]"
      and ha: "set [a1, a2, a3, a4, a5, a6] \<subseteq> set ''0123456789abcdef''"
    by (rule color_shape)
  from assms(2) obtain b1 b2 b3 b4 b5 b6 where
      b: "b = CHR ''#'' # [b1, b2, b3, b4, b5, b6]"
      and hb: "set [b1, b2, b3, b4, b5, b6] \<subseteq> set ''0123456789abcdef''"
    by (rule color_shape)
  from ha obtain d1 d2 d3 d4 d5 d6 where
      d: "d1 < 16" "d2 < 16" "d3 < 16" "d4 < 16" "d5 < 16" "d6 < 16"
      and da: "[a1, a2, a3, a4, a5, a6]
          = [digit_char d1, digit_char d2, digit_char d3, digit_char d4,
             digit_char d5, digit_char d6]"
      and ra: "remove1 (CHR ''#'') (CHR ''#'' # [a1, a2, a3, a4, a5, a6])
          = [a1, a2, a3, a4, a5, a6]"
      and pa: "parseInt (substring [a1, a2, a3, a4, a5, a6] 0 2) (Some 16) = Num (int (d1 * 16 + d2))"
        "parseInt (substring [a1, a2, a3, a4, a5, a6] 2 4) (Some 16) = Num (int (d3 * 16 + d4))"
        "parseInt (substring [a1, a2, a3, a4, a5, a6] 4 6) (Some 16) = Num (int (d5 * 16 + d6))"
    by (rule interpolateColor_channels)
  from hb obtain e1 e2 e3 e4 e5 e6 where
      e: "e1 < 16" "e2 < 16" "e3 < 16" "e4 < 16" "e5 < 16" "e6 < 16"
      and db: "[b1, b2, b3, b4, b5, b6]
          = [digit_char e1, digit_char e2, digit_char e3, digit_char e4,
             digit_char e5, digit_char e6]"
      and rb: "remove1 (CHR ''#'') (CHR ''#'' # [b1, b2, b3, b4, b5, b6])
          = [b1, b2, b3, b4, b5, b6]"
      and pb: "parseInt (substring [b1, b2, b3, b4, b5, b6] 0 2) (Some 16) = Num (int (e1 * 16 + e2))"
        "parseInt (substring [b1, b2, b3, b4, b5, b6] 2 4) (Some 16) = Num (int (e3 * 16 + e4))"
        "parseInt (substring [b1, b2, b3, b4, b5, b6] 4 6) (Some 16) = Num (int (e5 * 16 + e6))"
    by (rule interpolateColor_channels)
  have "interpolateColor a b 0 =
      CHR ''#'' # drop 1 (to_string16
           (js_add (js_shl (Num 1) 24 + js_shl (Num (int (d1 * 16 + d2))) 16
                      + js_shl (Num (int (d3 * 16 + d4))) 8)
                   (Num (int (d5 * 16 + d6)))))"
    by (simp only: interpolateColor_def Let_def a b ra rb pa pb math_round_lerp_ends)
  also have "\<dots> = CHR ''#'' # [digit_char d1, digit_char d2, digit_char d3, digit_char d4,
            digit_char d5, digit_char d6]"
    by (simp only: encode_bytes [OF d])
  also have "\<dots> = a"
    by (simp only: a da)
  finally have zero: "interpolateColor a b 0 = a" .
  have "interpolateColor a b 1 =
      CHR ''#'' # drop 1 (to_string16
           (js_add (js_shl (Num 1) 24 + js_shl (Num (int (e1 * 16 + e2))) 16
                      + js_shl (Num (int (e3 * 16 + e4))) 8)
                   (Num (int (e5 * 16 + e6)))))"
    by (simp only: interpolateColor_def Let_def a b ra rb pa pb math_round_lerp_ends)
  also have "\<dots> = CHR ''#'' # [digit_char e1, digit_char e2, digit_char e3, digit_char e4,
            digit_char e5, digit_char e6]"
    by (simp only: encode_bytes [OF e])
  also have "\<dots> = b"
    by (simp only: b db)
  finally have one: "interpolateColor a b 1 = b" .
  from zero one show ?thesis
    by (rule conjI)
qed

theorem interpolateColor_endpoints_witness:
  "is_color ''#f87171'' \<and> is_color ''#a78bfa''
   \<and> interpolateColor ''#f87171'' ''#a78bfa'' 0 = ''#f87171''
   \<and> interpolateColor ''#f87171'' ''#a78bfa'' 1 = ''#a78bfa''"
proof -
  have a: "is_color ''#f87171''" and b: "is_color ''#a78bfa''"
    by (simp_all add: is_color_def)
  with interpolateColor_endpoints [OF a b] show ?thesis
    by simp
qed


section \<open>Properties of the rating store\<close>

lemma apply_result_Inr:
  assumes "apply_result store g = Inr store'"
  obtains rw rl where "ratings store (winner g) = Some rw"
    and "ratings store (loser g) = Some rl"
    and "store' = store\<lparr>ratings := (ratings store)
            (winner g \<mapsto> rw + elo_delta (k_factor store) (scale store) 1 rw rl,
             loser g \<mapsto> rl + elo_delta (k_factor store) (scale store) 0 rl rw)\<rparr>"
  using assms
  by (auto simp: apply_result_def get_rating_def split: option.splits)

lemma apply_result_fields:
  assumes "apply_result store g = Inr store'"
  shows "applied_week store' = applied_week store"
    and "dom (ratings store') = dom (ratings store)"
proof -
  from assms obtain rw rl where w: "ratings store (winner g) = Some rw"
    and l: "ratings store (loser g) = Some rl"
    and s': "store' = store\<lparr>ratings := (ratings store)
            (winner g \<mapsto> rw + elo_delta (k_factor store) (scale store) 1 rw rl,
             loser g \<mapsto> rl + elo_delta (k_factor store) (scale store) 0 rl rw)\<rparr>"
    by (rule apply_result_Inr)
  show "applied_week store' = applied_week store"
    by (simp add: s')
  from w l have "winner g \<in> dom (ratings store)" and "loser g \<in> dom (ratings store)"
    by auto
  then show "dom (ratings store') = dom (ratings store)"
    by (auto simp: s')
qed

lemma apply_results_fields:
  "apply_results store gs = Inr store' \<Longrightarrow>
     applied_week store' = applied_week store \<and> dom (ratings store') = dom (ratings store)"
proof (induction gs arbitrary: store)
  case Nil
  then show ?case by simp
next
  case (Cons g gs)
  from Cons.prems obtain mid where
      one: "apply_result store g = Inr mid" and rest: "apply_results mid gs = Inr store'"
    by (auto split: sum.splits)
  from Cons.IH [OF rest] apply_result_fields [OF one] show ?case
    by simp
qed

lemma update_through_applied:
  assumes "update_through wk results store = Inr store'"
  shows "wk \<le> applied_week store'" and "applied_week store \<le> applied_week store'"
proof -
  from assms obtain mid where
      mid: "apply_results store
              (filter (\<lambda>g. applied_week store < result_week g \<and> result_week g \<le> wk) results)
            = Inr mid"
      and s': "store' = mid\<lparr>applied_week := max (applied_week mid) wk\<rparr>"
    by (auto simp: update_through_def split: sum.splits)
  from apply_results_fields [OF mid] s'
  show "wk \<le> applied_week store'" and "applied_week store \<le> applied_week store'"
    by simp_all
qed

text \<open>
  C3. Calling \<open>update_through(w, results)\<close> a second time on the store the first call
  returned yields that same store: the first call records \<open>w\<close> as applied, so the second
  finds no game left to apply. This holds for every results set, in particular for one
  whose games all have a week at most \<open>w\<close>, and from every state of the store.
\<close>

theorem update_through_idempotent:
  assumes "update_through wk results store = Inr store'"
  shows "update_through wk results store' = Inr store'"
proof -
  from update_through_applied(1) [OF assms]
  have none: "filter (\<lambda>g. applied_week store' < result_week g \<and> result_week g \<le> wk) results = []"
    by (auto simp: filter_empty_conv)
  from update_through_applied(1) [OF assms]
  have "max (applied_week store') wk = applied_week store'"
    by simp
  then show ?thesis
    by (simp add: update_through_def none)
qed


lemma update_through_level_store:
  "update_through 1 week1_results level_store = Inr week1_store"
  by (auto simp: update_through_def week1_results_def level_store_def week1_store_def
      apply_result_def get_rating_def elo_delta_def expected_outcome_def fun_eq_iff)

theorem update_through_idempotent_witness:
  "update_through 1 week1_results level_store = Inr week1_store
   \<and> update_through 1 week1_results week1_store = Inr week1_store
   \<and> ratings week1_store ''Bills'' = Some 1510
   \<and> ratings level_store ''Bills'' = Some 1500"
  using update_through_level_store update_through_idempotent [OF update_through_level_store]
  by (simp add: week1_store_def level_store_def)

lemma expected_outcome_sum: "expected_outcome S r r' + expected_outcome S r' r = 1"
proof -
  let ?x = "10 powr ((r - r') / S)"
  have pos: "0 < ?x"
    by simp
  have "- (r - r') / S = - ((r - r') / S)"
    by (rule minus_divide_left [symmetric])
  then have a: "10 powr (- (r - r') / S) = inverse ?x"
    by (simp only: powr_minus)
  have "- (r' - r) = r - r'"
    by simp
  then have b: "10 powr (- (r' - r) / S) = ?x"
    by (simp only:)
  have "expected_outcome S r r' + expected_outcome S r' r
      = 1 / (1 + inverse ?x) + 1 / (1 + ?x)"
    by (simp only: expected_outcome_def a b)
  also have "1 / (1 + inverse ?x) = ?x / (1 + ?x)"
    using pos by (simp add: field_simps)
  also have "?x / (1 + ?x) + 1 / (1 + ?x) = (1 + ?x) / (1 + ?x)"
    by (simp only: add_divide_distrib add.commute)
  also have "\<dots> = 1"
  proof (rule divide_self)
    have "0 < 1 + ?x"
      by (rule add_pos_pos) simp_all
    then show "1 + ?x \<noteq> 0"
      by linarith
  qed
  finally show ?thesis .
qed

lemma elo_delta_opposite: "elo_delta K S 1 rw rl = - elo_delta K S 0 rl rw"
proof -
  have "expected_outcome S rl rw = 1 - expected_outcome S rw rl"
    using expected_outcome_sum [of S rw rl] by simp
  then have "elo_delta K S 0 rl rw = K * (0 - (1 - expected_outcome S rw rl))"
    by (simp only: elo_delta_def)
  also have "\<dots> = - (K * (1 - expected_outcome S rw rl))"
    by (simp add: algebra_simps)
  finally show ?thesis
    by (simp only: elo_delta_def minus_minus)
qed

lemma delta_sum_apply_result:
  assumes "apply_result store g = Inr store'" and fin: "finite (dom (ratings store))"
    and ne: "winner g \<noteq> loser g"
  shows "delta_sum store store' = 0"
proof -
  from assms(1) obtain rw rl where w: "ratings store (winner g) = Some rw"
    and l: "ratings store (loser g) = Some rl"
    and s': "store' = store\<lparr>ratings := (ratings store)
            (winner g \<mapsto> rw + elo_delta (k_factor store) (scale store) 1 rw rl,
             loser g \<mapsto> rl + elo_delta (k_factor store) (scale store) 0 rl rw)\<rparr>"
    by (rule apply_result_Inr)
  let ?f = "\<lambda>tm. the (ratings store' tm) - the (ratings store tm)"
  have sub: "{winner g, loser g} \<subseteq> dom (ratings store)"
    using w l by auto
  have zero: "\<forall>tm \<in> dom (ratings store) - {winner g, loser g}. ?f tm = 0"
    by (simp add: s')
  have "delta_sum store store' = (\<Sum>tm \<in> {winner g, loser g}. ?f tm)"
    unfolding delta_sum_def using fin sub zero by (rule sum.mono_neutral_right)
  also have "\<dots> = ?f (winner g) + ?f (loser g)"
    using ne by simp
  also have "\<dots> = elo_delta (k_factor store) (scale store) 1 rw rl
      + elo_delta (k_factor store) (scale store) 0 rl rw"
    using ne w l by (simp add: s')
  also have "\<dots> = 0"
    by (simp add: elo_delta_opposite)
  finally show ?thesis .
qed

lemma delta_sum_trans:
  assumes "dom (ratings mid) = dom (ratings store)"
  shows "delta_sum store store' = delta_sum store mid + delta_sum mid store'"
  by (simp add: delta_sum_def assms sum.distrib [symmetric])

lemma delta_sum_apply_results:
  "apply_results store gs = Inr store' \<Longrightarrow> finite (dom (ratings store)) \<Longrightarrow>
   \<forall>g \<in> set gs. winner g \<noteq> loser g \<Longrightarrow> delta_sum store store' = 0"
proof (induction gs arbitrary: store)
  case Nil
  then show ?case by (simp add: delta_sum_def)
next
  case (Cons g gs)
  from Cons.prems(1) obtain mid where
      one: "apply_result store g = Inr mid" and rest: "apply_results mid gs = Inr store'"
    by (auto split: sum.splits)
  have dom: "dom (ratings mid) = dom (ratings store)"
    using one by (rule apply_result_fields)
  from Cons.prems(3) have g: "winner g \<noteq> loser g" and gs: "\<forall>g \<in> set gs. winner g \<noteq> loser g"
    by simp_all
  have "delta_sum store mid = 0"
    using one Cons.prems(2) g by (rule delta_sum_apply_result)
  moreover have "finite (dom (ratings mid))"
    using Cons.prems(2) by (simp only: dom)
  with rest have "delta_sum mid store' = 0"
    using gs by (rule Cons.IH)
  ultimately show ?case
    using delta_sum_trans [OF dom, of store'] by simp
qed

text \<open>
  C4. The Elo update of \<open>update_through\<close> is zero-sum. For one game the winner's delta
  \<open>K * (1 - E(winner))\<close> and the loser's delta \<open>K * (0 - E(loser))\<close> are equal in magnitude
  and opposite in sign; and over the results that a call applies, the rating changes of
  all teams sum to 0. Ratings are real numbers here, so the sum is exactly 0; the store
  holds finitely many teams and no team plays itself.
\<close>

theorem update_through_zero_sum:
  assumes "update_through wk results store = Inr store'"
    and "finite (dom (ratings store))"
    and "\<forall>g \<in> set results. winner g \<noteq> loser g"
  shows "elo_delta K S 1 rw rl = - elo_delta K S 0 rl rw \<and> delta_sum store store' = 0"
proof -
  from assms(1) obtain mid where
      mid: "apply_results store
              (filter (\<lambda>g. applied_week store < result_week g \<and> result_week g \<le> wk) results)
            = Inr mid"
      and s': "store' = mid\<lparr>applied_week := max (applied_week mid) wk\<rparr>"
    by (auto simp: update_through_def split: sum.splits)
  from assms(3) have "\<forall>g \<in> set (filter (\<lambda>g. applied_week store < result_week g
      \<and> result_week g \<le> wk) results). winner g \<noteq> loser g"
    by simp
  with mid assms(2) have "delta_sum store mid = 0"
    by (rule delta_sum_apply_results)
  then have "delta_sum store store' = 0"
    by (simp add: delta_sum_def s')
  then show ?thesis
    by (simp add: elo_delta_opposite)
qed

theorem update_through_zero_sum_witness:
  "update_through 1 week1_results level_store = Inr week1_store
   \<and> finite (dom (ratings level_store))
   \<and> list_all (\<lambda>g. winner g \<noteq> loser g) week1_results
   \<and> elo_delta 20 400 1 1500 1500 = 10
   \<and> elo_delta 20 400 1 1500 1500 = - elo_delta 20 400 0 1500 1500
   \<and> delta_sum level_store week1_store = 0"
proof -
  have fin: "finite (dom (ratings level_store))"
    by (simp add: level_store_def)
  have ne: "\<forall>g \<in> set week1_results. winner g \<noteq> loser g"
    by (simp add: week1_results_def)
  have ten: "elo_delta 20 400 1 1500 1500 = 10"
    by (simp add: elo_delta_def expected_outcome_def)
  from update_through_zero_sum [OF update_through_level_store fin ne, of 20 400 1500 1500]
    update_through_level_store fin ne ten
  show ?thesis
    by (simp add: list_all_iff)
qed

end
